theory Spec2Isabelle
  imports Complex_Main "HOL-Library.AList"
begin

section \<open>JavaScript numbers\<close>

text \<open>
  A JavaScript number is an IEEE-754 binary64 value. Two views of it are used below.

  The carousel's \<^verbatim>\<open>currentSlide\<close> only ever holds an integer whose magnitude stays below
  twice the slide count, or NaN (the remainder by a slide count of zero); binary64
  arithmetic is exact on such integers, so that field is an \<open>index\<close>: an integer or NaN.
  The sign of a zero is not tracked: \<^verbatim>\<open>-0 === 0\<close> holds and nothing here divides by an index.

  The sample data is computed from fractions, where every operation rounds. A \<open>double\<close>
  is the rational a finite binary64 value denotes, or an infinity, or NaN (again with one
  zero), and every arithmetic operation rounds its exact result to the nearest binary64
  value, ties to the even significand.
\<close>

datatype index = Idx int | NaN

fun index_add :: "index \<Rightarrow> int \<Rightarrow> index" where
  "index_add (Idx a) b = Idx (a + b)"
| "index_add NaN b = NaN"

text \<open>
  The operator \<^verbatim>\<open>%\<close>: the remainder takes the sign of the dividend, and a zero divisor
  gives NaN.
\<close>

fun index_rem :: "index \<Rightarrow> int \<Rightarrow> index" where
  "index_rem (Idx a) n = (if n = 0 then NaN else Idx (sgn a * (\<bar>a\<bar> mod \<bar>n\<bar>)))"
| "index_rem NaN n = NaN"

datatype double = Fin rat | PosInf | NegInf | NotANumber

definition round_half_even :: "rat \<Rightarrow> int" where
  "round_half_even q =
     (let f = \<lfloor>q\<rfloor>; d = q - of_int f in
      if d < 1 / 2 then f else if 1 / 2 < d then f + 1 else if even f then f else f + 1)"

text \<open>
  The binade of a positive rational: how often it can be halved before it drops below 2,
  or doubled before it reaches 1. The bounds 1023 and 1022 are the largest and the
  smallest exponent of a normal binary64 value; below the smallest the spacing stays
  that of the subnormal values.
\<close>

primrec halvings :: "nat \<Rightarrow> rat \<Rightarrow> nat" where
  "halvings 0 q = 0"
| "halvings (Suc n) q = (if q < 2 then 0 else Suc (halvings n (q / 2)))"

primrec doublings :: "nat \<Rightarrow> rat \<Rightarrow> nat" where
  "doublings 0 q = 0"
| "doublings (Suc n) q = (if 1 \<le> q then 0 else Suc (doublings n (2 * q)))"

definition exponent :: "rat \<Rightarrow> int" where
  "exponent q = (if 1 \<le> q then int (halvings 1023 q) else - int (doublings 1022 q))"

definition ulp :: "rat \<Rightarrow> rat" where
  "ulp q = 2 powi (exponent q - 52)"

text \<open>
  A non-negative rational rounded to a multiple of the spacing of its binade, and the
  binary64 value nearest to a rational: a magnitude of \<open>2 ^ 1024\<close> or more is an infinity.
\<close>

definition magnitude :: "rat \<Rightarrow> rat" where
  "magnitude a = of_int (round_half_even (a / ulp a)) * ulp a"

definition round_double :: "rat \<Rightarrow> double" where
  "round_double q =
     (let m = magnitude \<bar>q\<bar> in
      if 2 ^ 1024 \<le> m then (if q < 0 then NegInf else PosInf)
      else Fin (if q < 0 then - m else m))"

text \<open>A numeric literal of the source denotes the binary64 value nearest to it.\<close>

definition lit :: "rat \<Rightarrow> double" where
  "lit q = round_double q"

definition of_integer :: "int \<Rightarrow> double" where
  "of_integer i = round_double (of_int i)"

fun fl_neg :: "double \<Rightarrow> double" where
  "fl_neg (Fin a) = Fin (- a)"
| "fl_neg PosInf = NegInf"
| "fl_neg NegInf = PosInf"
| "fl_neg NotANumber = NotANumber"

fun fl_add :: "double \<Rightarrow> double \<Rightarrow> double" where
  "fl_add (Fin a) (Fin b) = round_double (a + b)"
| "fl_add NotANumber v = NotANumber"
| "fl_add u NotANumber = NotANumber"
| "fl_add PosInf NegInf = NotANumber"
| "fl_add NegInf PosInf = NotANumber"
| "fl_add PosInf v = PosInf"
| "fl_add NegInf v = NegInf"
| "fl_add (Fin a) v = v"

definition fl_sub :: "double \<Rightarrow> double \<Rightarrow> double" where
  "fl_sub u v = fl_add u (fl_neg v)"

fun fl_sgn :: "double \<Rightarrow> rat" where
  "fl_sgn (Fin a) = sgn a"
| "fl_sgn PosInf = 1"
| "fl_sgn NegInf = - 1"
| "fl_sgn NotANumber = 0"

fun fl_mul :: "double \<Rightarrow> double \<Rightarrow> double" where
  "fl_mul (Fin a) (Fin b) = round_double (a * b)"
| "fl_mul NotANumber v = NotANumber"
| "fl_mul u NotANumber = NotANumber"
| "fl_mul u v =
     (if fl_sgn u * fl_sgn v = 0 then NotANumber
      else if 0 < fl_sgn u * fl_sgn v then PosInf else NegInf)"

text \<open>Division; a zero divisor counts as the positive zero.\<close>

fun fl_div :: "double \<Rightarrow> double \<Rightarrow> double" where
  "fl_div (Fin a) (Fin b) =
     (if b = 0 then (if a = 0 then NotANumber else if 0 < a then PosInf else NegInf)
      else round_double (a / b))"
| "fl_div NotANumber v = NotANumber"
| "fl_div u NotANumber = NotANumber"
| "fl_div (Fin a) v = Fin 0"
| "fl_div u (Fin b) = (if 0 \<le> fl_sgn u * (if b < 0 then - 1 else 1) then PosInf else NegInf)"
| "fl_div u v = NotANumber"

text \<open>The comparisons \<^verbatim>\<open><\<close> and \<^verbatim>\<open><=\<close>; both are false when an operand is NaN.\<close>

fun fl_less :: "double \<Rightarrow> double \<Rightarrow> bool" where
  "fl_less (Fin a) (Fin b) = (a < b)"
| "fl_less NotANumber v = False"
| "fl_less u NotANumber = False"
| "fl_less u NegInf = False"
| "fl_less PosInf v = False"
| "fl_less u v = True"

fun fl_le :: "double \<Rightarrow> double \<Rightarrow> bool" where
  "fl_le (Fin a) (Fin b) = (a \<le> b)"
| "fl_le NotANumber v = False"
| "fl_le u NotANumber = False"
| "fl_le NegInf v = True"
| "fl_le u PosInf = True"
| "fl_le u v = False"

text \<open>
  What \<^verbatim>\<open>Math.random()\<close> may return: a binary64 value that is at least 0 and less than 1.
\<close>

fun unit_double :: "double \<Rightarrow> bool" where
  "unit_double (Fin q) = (0 \<le> q \<and> q < 1 \<and> round_double q = Fin q)"
| "unit_double u = False"

definition Math_PI :: double where
  "Math_PI = lit (3141592653589793 / 1000000000000000)"


section \<open>The sample data generator\<close>

text \<open>
  The host's \<^verbatim>\<open>Math\<close> object. \<^verbatim>\<open>Math.random()\<close> is a sequence of draws, read through a
  counter that every call advances; \<^verbatim>\<open>Math.cos\<close> and \<^verbatim>\<open>Math.sin\<close> are the host's
  approximations, which the language leaves to the implementation.
\<close>

record math =
  Math_random :: "nat \<Rightarrow> double"
  Math_cos :: "double \<Rightarrow> double"
  Math_sin :: "double \<Rightarrow> double"

text \<open>
  The fields \<^verbatim>\<open>x, y, z\<close> of a point and \<^verbatim>\<open>r, g, b\<close> of its colour carry a prefix here, since a
  one-letter constant would capture the variables of every later statement.
\<close>

record color =
  c_r :: double
  c_g :: double
  c_b :: double

record point =
  p_x :: double
  p_y :: double
  p_z :: double
  color :: color
  imageUrl :: string

text \<open>Decimal notation of an integer, as a template string prints it.\<close>

definition digit :: "nat \<Rightarrow> char" where
  "digit d = ''0123456789'' ! d"

function show_nat :: "nat \<Rightarrow> string" where
  "show_nat n = (if n < 10 then [digit n] else show_nat (n div 10) @ [digit (n mod 10)])"
  by pat_completeness auto
termination
  by (relation "measure (\<lambda>n. n)") auto

declare show_nat.simps [simp del]

definition show_int :: "int \<Rightarrow> string" where
  "show_int i = (if i < 0 then CHR ''-'' # show_nat (nat (- i)) else show_nat (nat i))"

text \<open>
  The body of the loop of \<^verbatim>\<open>generateSampleData\<close> at index \<open>i\<close>, when \<open>n\<close> draws have been
  made so far. The draws are taken in the order the source evaluates them: radius, height,
  the jitter of x, the jitter of z, then red, green and blue.
\<close>

definition sample_angle :: "int \<Rightarrow> int \<Rightarrow> double" where
  "sample_angle numPoints i =
     fl_mul (fl_mul (fl_div (of_integer i) (of_integer numPoints)) Math_PI) (lit 2)"

definition sample_radius :: "math \<Rightarrow> nat \<Rightarrow> double" where
  "sample_radius m n = fl_add (lit 1) (fl_mul (Math_random m n) (lit 2))"

definition sample_height :: "math \<Rightarrow> nat \<Rightarrow> double" where
  "sample_height m n = fl_mul (fl_sub (Math_random m (n + 1)) (lit (5 / 10))) (lit 2)"

definition sample_point :: "math \<Rightarrow> int \<Rightarrow> int \<Rightarrow> int \<Rightarrow> nat \<Rightarrow> point" where
  "sample_point m slideNumber numPoints i n =
     (let angle = sample_angle numPoints i;
          radius = sample_radius m n;
          height = sample_height m n
      in \<lparr> p_x = fl_add (fl_mul (Math_cos m angle) radius)
                   (fl_mul (fl_sub (Math_random m (n + 2)) (lit (5 / 10))) (lit (5 / 10))),
           p_y = height,
           p_z = fl_add (fl_mul (Math_sin m angle) radius)
                   (fl_mul (fl_sub (Math_random m (n + 3)) (lit (5 / 10))) (lit (5 / 10))),
           color = \<lparr> c_r = fl_add (lit (3 / 10)) (fl_mul (Math_random m (n + 4)) (lit (7 / 10))),
                     c_g = fl_add (lit (5 / 10)) (fl_mul (Math_random m (n + 5)) (lit (5 / 10))),
                     c_b = fl_add (lit (8 / 10)) (fl_mul (Math_random m (n + 6)) (lit (2 / 10))) \<rparr>,
           imageUrl = ''image-'' @ show_int slideNumber @ ''-'' @ show_int i @ ''.jpg'' \<rparr>)"

function generateSampleData_loop ::
    "math \<Rightarrow> int \<Rightarrow> int \<Rightarrow> int \<Rightarrow> nat \<Rightarrow> point list \<Rightarrow> point list \<times> nat" where
  "generateSampleData_loop m slideNumber numPoints i n points =
     (if i < numPoints
      then generateSampleData_loop m slideNumber numPoints (i + 1) (n + 7)
             (points @ [sample_point m slideNumber numPoints i n])
      else (points, n))"
  by pat_completeness auto
termination
  by (relation "measure (\<lambda>(m, slideNumber, numPoints, i, n, points). nat (numPoints - i))") auto

declare generateSampleData_loop.simps [simp del]

text \<open>
  \<^verbatim>\<open>generateSampleData(slideNumber)\<close>, started when \<open>n\<close> draws have been made: the points and
  the number of draws made afterwards.
\<close>

definition generateSampleData :: "math \<Rightarrow> int \<Rightarrow> nat \<Rightarrow> point list \<times> nat" where
  "generateSampleData m slideNumber n =
     (let numPoints = 50 + slideNumber * 20
      in generateSampleData_loop m slideNumber numPoints 0 n [])"


section \<open>The page and the carousel\<close>

text \<open>
  A DOM element is known by its identity, so that the two controls may be one and the same
  element. A slide is its list of class tokens. A container has the two dimensions the
  code reads.
\<close>

type_synonym element = nat

record slide =
  classList :: "string list"

definition classList_add :: "string \<Rightarrow> slide \<Rightarrow> slide" where
  "classList_add token sl =
     (if token \<in> set (classList sl) then sl else sl\<lparr>classList := classList sl @ [token]\<rparr>)"

definition classList_remove :: "string \<Rightarrow> slide \<Rightarrow> slide" where
  "classList_remove token sl = sl\<lparr>classList := removeAll token (classList sl)\<rparr>"

definition active :: "slide \<Rightarrow> bool" where
  "active sl = (''active'' \<in> set (classList sl))"

record container =
  clientWidth :: nat
  clientHeight :: nat

text \<open>
  The function objects the component registers with the host. Each is a closure; the
  resize handlers and the frame callbacks are one per call of a \<^verbatim>\<open>create...\<close> method and
  carry the slide number of that call.
\<close>

datatype listener = PrevClick | NextClick | KeyboardHandler | CanvasResize nat | SceneResize nat

datatype callback = Draw nat | Animate nat

datatype event = Click | KeyDown string | Resize

text \<open>The only exception these methods can raise: a property read on \<^verbatim>\<open>null\<close>.\<close>

datatype error = TypeError

record canvas =
  width :: nat
  height :: nat

record camera =
  aspect :: double

record renderer =
  r_width :: nat
  r_height :: nat

text \<open>
  The object a \<^verbatim>\<open>create...\<close> method returns. \<open>animationId\<close> is \<open>None\<close> for \<^verbatim>\<open>null\<close> and
  \<^verbatim>\<open>undefined\<close>. The canvas, the camera and the renderer are shared with the closures of the
  call; they are kept here, in the one place both reach them by the slide number.
\<close>

datatype plot =
    CanvasPlot (canvas: canvas) (animationId: "nat option") (handleResize: listener)
  | ScenePlot (camera: camera) (renderer: renderer) (animationId: "nat option")
      (handleResize: listener)

text \<open>
  The fields of \<^verbatim>\<open>FeaturedWorkCarousel\<close>, then the state of the host the methods act on:
  the listeners of each element, of the document and of the window, the pending animation
  frame callbacks with the identifier last handed out, the containers, whether
  \<^verbatim>\<open>THREE\<close> is defined and the number of draws made; then the variables
  \<^verbatim>\<open>animationId\<close> and \<^verbatim>\<open>points\<close> of the closures, by slide number. What a frame paints, the
  rotation it accumulates and the mouse handlers of the 3D strategy are left out.
\<close>

record carousel =
  currentSlide :: index
  slides :: "slide list"
  prevBtn :: "element option"
  nextBtn :: "element option"
  scatterplots :: "(nat \<times> plot) list"
  keyboardHandler :: "listener option"
  clickListeners :: "element \<Rightarrow> listener list"
  keydownListeners :: "listener list"
  resizeListeners :: "listener list"
  frameCallbacks :: "(nat \<times> callback) list"
  frameId :: nat
  containers :: "nat \<Rightarrow> container option"
  THREE :: bool
  randomCalls :: nat
  closureAnimationId :: "nat \<Rightarrow> nat option"
  closurePoints :: "nat \<Rightarrow> point list"

text \<open>The markup the constructor finds.\<close>

record page =
  carouselSlides :: "slide list"
  prevControl :: "element option"
  nextControl :: "element option"
  scatterplotContainers :: "nat \<Rightarrow> container option"
  hasTHREE :: bool

subsection \<open>Host operations\<close>

text \<open>A listener that is already registered is not registered again.\<close>

definition addEventListener :: "listener \<Rightarrow> listener list \<Rightarrow> listener list" where
  "addEventListener l ls = (if l \<in> set ls then ls else ls @ [l])"

definition removeEventListener :: "listener \<Rightarrow> listener list \<Rightarrow> listener list" where
  "removeEventListener l ls = removeAll l ls"

definition addClickListener :: "element option \<Rightarrow> listener \<Rightarrow> carousel \<Rightarrow> error + carousel" where
  "addClickListener target l s =
     (case target of
        None \<Rightarrow> Inl TypeError
      | Some e \<Rightarrow>
          Inr (s\<lparr>clickListeners := (clickListeners s)(e := addEventListener l (clickListeners s e))\<rparr>))"

definition requestAnimationFrame :: "callback \<Rightarrow> carousel \<Rightarrow> nat \<times> carousel" where
  "requestAnimationFrame cb s =
     (frameId s + 1,
      s\<lparr>frameId := frameId s + 1, frameCallbacks := frameCallbacks s @ [(frameId s + 1, cb)]\<rparr>)"

definition cancelAnimationFrame :: "nat \<Rightarrow> carousel \<Rightarrow> carousel" where
  "cancelAnimationFrame h s = s\<lparr>frameCallbacks := filter (\<lambda>(i, cb). i \<noteq> h) (frameCallbacks s)\<rparr>"

subsection \<open>Navigation\<close>

definition updateSlides :: "carousel \<Rightarrow> carousel" where
  "updateSlides s =
     s\<lparr>slides :=
          map (\<lambda>(index, sl).
                 if Idx (int index) = currentSlide s then classList_add ''active'' sl
                 else classList_remove ''active'' sl)
            (enumerate 0 (slides s))\<rparr>"

definition nextSlide :: "carousel \<Rightarrow> carousel" where
  "nextSlide s =
     updateSlides
       (s\<lparr>currentSlide :=
            index_rem (index_add (currentSlide s) 1) (int (length (slides s)))\<rparr>)"

definition prevSlide :: "carousel \<Rightarrow> carousel" where
  "prevSlide s =
     updateSlides
       (s\<lparr>currentSlide :=
            index_rem (index_add (index_add (currentSlide s) (- 1)) (int (length (slides s))))
              (int (length (slides s)))\<rparr>)"

text \<open>A sequence of calls of the two methods, and the direction each stands for.\<close>

datatype call = NextSlide | PrevSlide

fun direction :: "call \<Rightarrow> int" where
  "direction NextSlide = 1"
| "direction PrevSlide = - 1"

fun advance :: "call \<Rightarrow> carousel \<Rightarrow> carousel" where
  "advance NextSlide s = nextSlide s"
| "advance PrevSlide s = prevSlide s"

definition advances :: "call list \<Rightarrow> carousel \<Rightarrow> carousel" where
  "advances cs s = fold advance cs s"

subsection \<open>The visualizations\<close>

text \<open>
  \<^verbatim>\<open>draw\<close> and \<^verbatim>\<open>animate\<close>, as far as the schedule goes: each run requests the next frame
  and stores the identifier in the variable \<^verbatim>\<open>animationId\<close> of its closure.
\<close>

definition draw :: "nat \<Rightarrow> carousel \<Rightarrow> carousel" where
  "draw slideNumber s =
     (let (h, s1) = requestAnimationFrame (Draw slideNumber) s
      in s1\<lparr>closureAnimationId := (closureAnimationId s1)(slideNumber := Some h)\<rparr>)"

definition animate :: "nat \<Rightarrow> carousel \<Rightarrow> carousel" where
  "animate slideNumber s =
     (let (h, s1) = requestAnimationFrame (Animate slideNumber) s
      in s1\<lparr>closureAnimationId := (closureAnimationId s1)(slideNumber := Some h)\<rparr>)"

definition createCanvasPlaceholder ::
    "math \<Rightarrow> container option \<Rightarrow> nat \<Rightarrow> carousel \<Rightarrow> error + plot \<times> carousel" where
  "createCanvasPlaceholder m container slideNumber s =
     (case container of
        None \<Rightarrow> Inl TypeError
      | Some c \<Rightarrow>
          (let cv = \<lparr>width = clientWidth c, height = clientHeight c\<rparr>;
               (points, n) = generateSampleData m (int slideNumber) (randomCalls s);
               s1 = s\<lparr>randomCalls := n,
                      closureAnimationId := (closureAnimationId s)(slideNumber := None),
                      closurePoints := (closurePoints s)(slideNumber := points)\<rparr>;
               s2 = draw slideNumber s1;
               s3 = s2\<lparr>resizeListeners :=
                         addEventListener (CanvasResize slideNumber) (resizeListeners s2)\<rparr>
           in Inr (CanvasPlot cv (closureAnimationId s3 slideNumber) (CanvasResize slideNumber),
                   s3)))"

definition createScatterplot ::
    "math \<Rightarrow> container option \<Rightarrow> nat \<Rightarrow> carousel \<Rightarrow> error + plot \<times> carousel" where
  "createScatterplot m container slideNumber s =
     (case container of
        None \<Rightarrow> Inl TypeError
      | Some c \<Rightarrow>
          (let cam = \<lparr>aspect = fl_div (of_integer (int (clientWidth c)))
                                  (of_integer (int (clientHeight c)))\<rparr>;
               rnd = \<lparr>r_width = clientWidth c, r_height = clientHeight c\<rparr>;
               (points, n) = generateSampleData m (int slideNumber) (randomCalls s);
               s1 = s\<lparr>randomCalls := n,
                      closureAnimationId := (closureAnimationId s)(slideNumber := None),
                      closurePoints := (closurePoints s)(slideNumber := points)\<rparr>;
               s2 = animate slideNumber s1;
               s3 = s2\<lparr>resizeListeners :=
                         addEventListener (SceneResize slideNumber) (resizeListeners s2)\<rparr>
           in Inr (ScenePlot cam rnd (closureAnimationId s3 slideNumber)
                     (SceneResize slideNumber),
                   s3)))"

definition getElementById :: "carousel \<Rightarrow> nat \<Rightarrow> container option" where
  "getElementById s i = containers s i"

function initScatterplots_from :: "math \<Rightarrow> nat \<Rightarrow> carousel \<Rightarrow> error + carousel" where
  "initScatterplots_from m i s =
     (if i \<le> 3 then
        (let container = getElementById s i in
         if container \<noteq> None then
           (case (if THREE s then createScatterplot m container i s
                  else createCanvasPlaceholder m container i s) of
              Inl e \<Rightarrow> Inl e
            | Inr (plot, s1) \<Rightarrow>
                initScatterplots_from m (i + 1)
                  (s1\<lparr>scatterplots := AList.update i plot (scatterplots s1)\<rparr>))
         else initScatterplots_from m (i + 1) s)
      else Inr s)"
  by pat_completeness auto
termination
  by (relation "measure (\<lambda>(m, i, s). 4 - i)") auto

declare initScatterplots_from.simps [simp del]

definition initScatterplots :: "math \<Rightarrow> carousel \<Rightarrow> error + carousel" where
  "initScatterplots m s = initScatterplots_from m 1 s"

subsection \<open>Construction and teardown\<close>

definition init :: "math \<Rightarrow> carousel \<Rightarrow> error + carousel" where
  "init m s =
     (case (if prevBtn s \<noteq> None \<and> nextBtn s \<noteq> None then
              (case addClickListener (prevBtn s) PrevClick s of
                 Inl e \<Rightarrow> Inl e
               | Inr s1 \<Rightarrow> addClickListener (nextBtn s1) NextClick s1)
            else Inr s) of
        Inl e \<Rightarrow> Inl e
      | Inr s2 \<Rightarrow>
          (let s3 = s2\<lparr>keyboardHandler := Some KeyboardHandler\<rparr>;
               s4 = (case keyboardHandler s3 of
                       None \<Rightarrow> s3
                     | Some l \<Rightarrow> s3\<lparr>keydownListeners := addEventListener l (keydownListeners s3)\<rparr>)
           in initScatterplots m s4))"

definition constructor :: "math \<Rightarrow> page \<Rightarrow> error + carousel" where
  "constructor m p =
     init m
       \<lparr>currentSlide = Idx 0,
        slides = carouselSlides p,
        prevBtn = prevControl p,
        nextBtn = nextControl p,
        scatterplots = [],
        keyboardHandler = None,
        clickListeners = (\<lambda>e. []),
        keydownListeners = [],
        resizeListeners = [],
        frameCallbacks = [],
        frameId = 0,
        containers = scatterplotContainers p,
        THREE = hasTHREE p,
        randomCalls = 0,
        closureAnimationId = (\<lambda>i. None),
        closurePoints = (\<lambda>i. [])\<rparr>"

text \<open>The body of the \<^verbatim>\<open>forEach\<close> of \<^verbatim>\<open>destroy\<close>; an identifier of zero is falsy.\<close>

definition destroy_plot :: "plot \<Rightarrow> carousel \<Rightarrow> carousel" where
  "destroy_plot plot s =
     (let s1 = (case animationId plot of
                  None \<Rightarrow> s
                | Some h \<Rightarrow> if h \<noteq> 0 then cancelAnimationFrame h s else s)
      in s1\<lparr>resizeListeners := removeEventListener (handleResize plot) (resizeListeners s1)\<rparr>)"

definition destroy :: "carousel \<Rightarrow> carousel" where
  "destroy s =
     (let s1 = (case keyboardHandler s of
                  None \<Rightarrow> s
                | Some l \<Rightarrow> s\<lparr>keydownListeners := removeEventListener l (keydownListeners s)\<rparr>)
      in fold destroy_plot (map snd (scatterplots s1)) s1)"

subsection \<open>Events\<close>

definition map_plot :: "nat \<Rightarrow> (plot \<Rightarrow> plot) \<Rightarrow> carousel \<Rightarrow> carousel" where
  "map_plot i f s = s\<lparr>scatterplots := AList.map_entry i f (scatterplots s)\<rparr>"

fun set_canvas_size :: "nat \<Rightarrow> nat \<Rightarrow> plot \<Rightarrow> plot" where
  "set_canvas_size w h (CanvasPlot cv a l) = CanvasPlot (cv\<lparr>width := w, height := h\<rparr>) a l"
| "set_canvas_size w h (ScenePlot cam rnd a l) = ScenePlot cam rnd a l"

fun set_scene_size :: "nat \<Rightarrow> nat \<Rightarrow> plot \<Rightarrow> plot" where
  "set_scene_size w h (ScenePlot cam rnd a l) =
     ScenePlot (cam\<lparr>aspect := fl_div (of_integer (int w)) (of_integer (int h))\<rparr>)
       (rnd\<lparr>r_width := w, r_height := h\<rparr>) a l"
| "set_scene_size w h (CanvasPlot cv a l) = CanvasPlot cv a l"

text \<open>
  The two \<^verbatim>\<open>handleResize\<close> closures. The container each captured is the one of its slide
  number: \<^verbatim>\<open>initScatterplots\<close> passes the two together.
\<close>

definition canvas_handleResize :: "nat \<Rightarrow> carousel \<Rightarrow> carousel" where
  "canvas_handleResize slideNumber s =
     (case containers s slideNumber of
        None \<Rightarrow> s
      | Some c \<Rightarrow> map_plot slideNumber (set_canvas_size (clientWidth c) (clientHeight c)) s)"

definition scene_handleResize :: "nat \<Rightarrow> carousel \<Rightarrow> carousel" where
  "scene_handleResize slideNumber s =
     (case containers s slideNumber of
        None \<Rightarrow> s
      | Some c \<Rightarrow>
          if 0 < clientWidth c \<and> 0 < clientHeight c
          then map_plot slideNumber (set_scene_size (clientWidth c) (clientHeight c)) s
          else s)"

fun call_listener :: "listener \<Rightarrow> event \<Rightarrow> carousel \<Rightarrow> carousel" where
  "call_listener PrevClick ev s = prevSlide s"
| "call_listener NextClick ev s = nextSlide s"
| "call_listener KeyboardHandler (KeyDown key) s =
     (if key = ''ArrowLeft'' then prevSlide s
      else if key = ''ArrowRight'' then nextSlide s
      else s)"
| "call_listener KeyboardHandler ev s = s"
| "call_listener (CanvasResize i) ev s = canvas_handleResize i s"
| "call_listener (SceneResize i) ev s = scene_handleResize i s"

fun run_callback :: "callback \<Rightarrow> carousel \<Rightarrow> carousel" where
  "run_callback (Draw i) s = draw i s"
| "run_callback (Animate i) s = animate i s"

text \<open>
  What the host does: a click on an element, a key press, a resize of the window, a change
  of a container's layout, and an animation frame, which empties the list of pending
  callbacks and runs those that were in it.
\<close>

definition click :: "element \<Rightarrow> carousel \<Rightarrow> carousel" where
  "click e s = fold (\<lambda>l. call_listener l Click) (clickListeners s e) s"

definition keydown :: "string \<Rightarrow> carousel \<Rightarrow> carousel" where
  "keydown key s = fold (\<lambda>l. call_listener l (KeyDown key)) (keydownListeners s) s"

definition resize :: "carousel \<Rightarrow> carousel" where
  "resize s = fold (\<lambda>l. call_listener l Resize) (resizeListeners s) s"

definition layout :: "nat \<Rightarrow> nat \<Rightarrow> nat \<Rightarrow> carousel \<Rightarrow> carousel" where
  "layout i w h s =
     (case containers s i of
        None \<Rightarrow> s
      | Some c \<Rightarrow> s\<lparr>containers := (containers s)(i := Some (c\<lparr>clientWidth := w, clientHeight := h\<rparr>))\<rparr>)"

definition frame :: "carousel \<Rightarrow> carousel" where
  "frame s = fold (\<lambda>(h, cb). run_callback cb) (frameCallbacks s) (s\<lparr>frameCallbacks := []\<rparr>)"


text \<open>A history of the page after construction: any sequence of such host events.\<close>

datatype action =
    ClickOn element | Press string | WindowResize | Relayout nat nat nat | AnimationFrame

fun perform :: "action \<Rightarrow> carousel \<Rightarrow> carousel" where
  "perform (ClickOn e) s = click e s"
| "perform (Press key) s = keydown key s"
| "perform WindowResize s = resize s"
| "perform (Relayout i w h) s = layout i w h s"
| "perform AnimationFrame s = frame s"

definition performs :: "action list \<Rightarrow> carousel \<Rightarrow> carousel" where
  "performs as s = fold perform as s"

subsection \<open>Example pages\<close>

text \<open>
  A host whose every draw is the largest binary64 value below 1, and some pages: one with three slides, both controls (two distinct elements) and containers
  for the slides 1 and 3 only; the same page without slides; the same page with the
  previous control alone; the same page with one element for both controls; the same page
  with \<^verbatim>\<open>THREE\<close> defined.
\<close>

definition example_math :: math where
  "example_math =
     \<lparr>Math_random = (\<lambda>n. Fin (1 - 1 / 2 ^ 53)),
      Math_cos = (\<lambda>d. Fin 1),
      Math_sin = (\<lambda>d. Fin 0)\<rparr>"

definition example_page :: page where
  "example_page =
     \<lparr>carouselSlides =
        [\<lparr>classList = [''carousel-slide'', ''active'']\<rparr>,
         \<lparr>classList = [''carousel-slide'']\<rparr>,
         \<lparr>classList = [''carousel-slide'']\<rparr>],
      prevControl = Some 0,
      nextControl = Some 1,
      scatterplotContainers =
        (\<lambda>i. if i = 1 \<or> i = 3 then Some \<lparr>clientWidth = 300, clientHeight = 150\<rparr> else None),
      hasTHREE = False\<rparr>"

definition empty_page :: page where
  "empty_page = example_page\<lparr>carouselSlides := []\<rparr>"

definition one_control_page :: page where
  "one_control_page = example_page\<lparr>nextControl := None\<rparr>"

definition same_control_page :: page where
  "same_control_page = example_page\<lparr>nextControl := Some 0\<rparr>"

definition three_page :: page where
  "three_page = example_page\<lparr>hasTHREE := True\<rparr>"

section \<open>Navigation\<close>

lemmas construct_eval =
  constructor_def init_def initScatterplots_def initScatterplots_from.simps
  addClickListener_def addEventListener_def getElementById_def createCanvasPlaceholder_def
  createScatterplot_def draw_def animate_def requestAnimationFrame_def Let_def case_prod_beta

lemma currentSlide_updateSlides: "currentSlide (updateSlides s) = currentSlide s"
  by (simp add: updateSlides_def)

lemma length_slides_updateSlides: "length (slides (updateSlides s)) = length (slides s)"
  by (simp add: updateSlides_def)

lemma length_slides_advance: "length (slides (advance k s)) = length (slides s)"
  by (cases k) (simp_all add: nextSlide_def prevSlide_def length_slides_updateSlides)

lemma length_slides_advances: "length (slides (advances cs s)) = length (slides s)"
  unfolding advances_def by (induction cs arbitrary: s) (simp_all add: length_slides_advance)

lemma active_classList_add: "active (classList_add ''active'' sl)"
  by (simp add: active_def classList_add_def)

lemma active_classList_remove: "\<not> active (classList_remove ''active'' sl)"
  by (simp add: active_def classList_remove_def)

lemma index_rem_next:
  assumes "0 \<le> c" and "c < n"
  shows "index_rem (index_add (Idx c) 1) n = Idx ((c + 1) mod n)"
  using assms by (simp add: sgn_if)

lemma index_rem_prev:
  assumes "0 \<le> c" and "c < n"
  shows "index_rem (index_add (index_add (Idx c) (- 1)) n) n = Idx ((c - 1) mod n)"
proof -
  have nonneg: "0 \<le> c - 1 + n" using assms by simp
  have same: "(c - 1 + n) mod n = (c - 1) mod n" by simp
  have "sgn (c - 1 + n) * (\<bar>c - 1 + n\<bar> mod \<bar>n\<bar>) = (c - 1 + n) mod n"
  proof (cases "c - 1 + n = 0")
    case True
    then show ?thesis by simp
  next
    case False
    with nonneg have "0 < c - 1 + n" by simp
    then show ?thesis using assms by simp
  qed
  moreover have "n \<noteq> 0" using assms by simp
  ultimately show ?thesis using same by simp
qed

lemma currentSlide_advance:
  assumes "currentSlide s = Idx c" and "0 \<le> c" and "c < int (length (slides s))"
  shows "currentSlide (advance k s) = Idx ((c + direction k) mod int (length (slides s)))"
proof (cases k)
  case NextSlide
  then show ?thesis
    using assms index_rem_next [of c "int (length (slides s))"]
    by (simp add: nextSlide_def currentSlide_updateSlides)
next
  case PrevSlide
  then show ?thesis
    using assms index_rem_prev [of c "int (length (slides s))"]
    by (simp add: prevSlide_def currentSlide_updateSlides)
qed

lemma currentSlide_advances:
  assumes "currentSlide s = Idx c" and "0 \<le> c" and "c < int (length (slides s))"
  shows "currentSlide (advances cs s) =
           Idx ((c + sum_list (map direction cs)) mod int (length (slides s)))"
  using assms
proof (induction cs arbitrary: s c)
  case Nil
  then show ?case by (simp add: advances_def)
next
  case (Cons k cs)
  let ?n = "int (length (slides s))"
  let ?c = "(c + direction k) mod ?n"
  have pos: "0 < ?n" using Cons.prems(2,3) by linarith
  have step: "currentSlide (advance k s) = Idx ?c"
    using Cons.prems by (rule currentSlide_advance)
  have len: "int (length (slides (advance k s))) = ?n"
    by (simp add: length_slides_advance)
  have "currentSlide (advances cs (advance k s)) = Idx ((?c + sum_list (map direction cs)) mod ?n)"
    using Cons.IH [of "advance k s" ?c] step pos len by simp
  moreover have "(?c + sum_list (map direction cs)) mod ?n
                   = (c + sum_list (map direction (k # cs))) mod ?n"
    by (simp add: mod_add_left_eq add.assoc)
  ultimately show ?case by (simp add: advances_def)
qed

lemma nth_slides_updateSlides:
  assumes "i < length (slides s)"
  shows "slides (updateSlides s) ! i =
           (if Idx (int i) = currentSlide s then classList_add ''active'' (slides s ! i)
            else classList_remove ''active'' (slides s ! i))"
  using assms by (simp add: updateSlides_def nth_enumerate_eq)

lemma active_updateSlides:
  assumes "i < length (slides s)"
  shows "active (slides (updateSlides s) ! i) \<longleftrightarrow> Idx (int i) = currentSlide s"
  using assms by (simp add: nth_slides_updateSlides active_classList_add active_classList_remove)

lemma count_active_updateSlides:
  assumes "currentSlide s = Idx c" and "0 \<le> c" and "c < int (length (slides s))"
  shows "length (filter active (slides (updateSlides s))) = 1"
proof -
  let ?xs = "slides (updateSlides s)"
  have "{i. i < length ?xs \<and> active (?xs ! i)} = {nat c}"
    using assms by (auto simp: length_slides_updateSlides active_updateSlides)
  then show ?thesis by (simp add: length_filter_conv_card)
qed


lemma active_advance:
  assumes "i < length (slides s)"
  shows "active (slides (advance k s) ! i) \<longleftrightarrow> Idx (int i) = currentSlide (advance k s)"
  using assms
  by (cases k) (simp_all add: nextSlide_def prevSlide_def active_updateSlides
      currentSlide_updateSlides)

lemma count_active_advance:
  assumes "currentSlide s = Idx c" and "0 \<le> c" and "c < int (length (slides s))"
  shows "length (filter active (slides (advance k s))) = 1"
proof -
  let ?n = "int (length (slides s))"
  have pos: "0 < ?n" using assms(2,3) by linarith
  show ?thesis
  proof (cases k)
    case NextSlide
    let ?t = "s\<lparr>currentSlide := index_rem (index_add (currentSlide s) 1) ?n\<rparr>"
    have "currentSlide ?t = Idx ((c + 1) mod ?n)"
      using assms index_rem_next [of c ?n] by simp
    moreover have "0 \<le> (c + 1) mod ?n" and "(c + 1) mod ?n < int (length (slides ?t))"
      using pos by simp_all
    ultimately have "length (filter active (slides (updateSlides ?t))) = 1"
      by (rule count_active_updateSlides)
    with NextSlide show ?thesis by (simp add: nextSlide_def)
  next
    case PrevSlide
    let ?t = "s\<lparr>currentSlide :=
                   index_rem (index_add (index_add (currentSlide s) (- 1)) ?n) ?n\<rparr>"
    have "currentSlide ?t = Idx ((c - 1) mod ?n)"
      using assms index_rem_prev [of c ?n] by simp
    moreover have "0 \<le> (c - 1) mod ?n" and "(c - 1) mod ?n < int (length (slides ?t))"
      using pos by simp_all
    ultimately have "length (filter active (slides (updateSlides ?t))) = 1"
      by (rule count_active_updateSlides)
    with PrevSlide show ?thesis by (simp add: prevSlide_def)
  qed
qed

lemma advances_snoc: "advances (cs @ [k]) s = advance k (advances cs s)"
  by (simp add: advances_def)

text \<open>
  C1. For a collection of \<open>N \<ge> 1\<close> slides, started at an index within the collection
  (the constructor starts at 0), after any sequence of calls of \<^verbatim>\<open>nextSlide\<close> (+1) and
  \<^verbatim>\<open>prevSlide\<close> (-1) the current index is the initial index plus the sum of the
  directions, modulo \<open>N\<close>, the mathematical remainder that lies in \<open>0..N-1\<close> also for a
  negative sum; and once a call has been made, that index is the position of the slide
  carrying the class \<^verbatim>\<open>active\<close>. The statement covers every prefix of a sequence, hence the
  state after each call.
\<close>

theorem advance_index_wraps:
  assumes "slides s \<noteq> []"
    and "currentSlide s = Idx c" and "0 \<le> c" and "c < int (length (slides s))"
  shows "currentSlide (advances cs s) =
           Idx ((c + sum_list (map direction cs)) mod int (length (slides s)))
         \<and> (cs \<noteq> [] \<longrightarrow>
              (\<forall>i < length (slides s).
                 active (slides (advances cs s) ! i) \<longleftrightarrow>
                 int i = (c + sum_list (map direction cs)) mod int (length (slides s))))"
proof -
  let ?m = "(c + sum_list (map direction cs)) mod int (length (slides s))"
  have cur: "currentSlide (advances cs s) = Idx ?m"
    using assms(2-4) by (rule currentSlide_advances)
  have "active (slides (advances cs s) ! i) \<longleftrightarrow> int i = ?m"
    if "cs \<noteq> []" and "i < length (slides s)" for i
  proof -
    from \<open>cs \<noteq> []\<close> obtain cs' k where cs: "cs = cs' @ [k]"
      by (cases cs rule: rev_cases) auto
    have "i < length (slides (advances cs' s))"
      using that(2) by (simp add: length_slides_advances)
    then have "active (slides (advance k (advances cs' s)) ! i) \<longleftrightarrow>
                 Idx (int i) = currentSlide (advance k (advances cs' s))"
      by (rule active_advance)
    with cur show ?thesis by (simp add: cs advances_snoc)
  qed
  with cur show ?thesis by blast
qed

theorem advance_index_wraps_witness:
  "\<exists>s. constructor example_math example_page = Inr s
       \<and> slides s \<noteq> [] \<and> currentSlide s = Idx 0 \<and> length (slides s) = 3
       \<and> currentSlide (advances [PrevSlide] s) = Idx 2
       \<and> \<not> active (slides (advances [PrevSlide] s) ! 0)
       \<and> active (slides (advances [PrevSlide] s) ! 2)"
proof -
  have "\<exists>s. constructor example_math example_page = Inr s
          \<and> currentSlide s = Idx 0 \<and> length (slides s) = 3"
    by (simp add: construct_eval example_page_def)
  then obtain s where s: "constructor example_math example_page = Inr s"
    "currentSlide s = Idx 0" "length (slides s) = 3"
    by blast
  then have ne: "slides s \<noteq> []" by auto
  have "0 \<le> (0::int)" and "0 < int (length (slides s))" using s by simp_all
  from advance_index_wraps [OF ne s(2) this, of "[PrevSlide]"] s ne
  show ?thesis by (intro exI [of _ s]) simp
qed

text \<open>
  C2. For a collection of \<open>N \<ge> 1\<close> slides, started at an index within the collection,
  after every call of \<^verbatim>\<open>nextSlide\<close> or \<^verbatim>\<open>prevSlide\<close> in any sequence of calls exactly one
  slide carries the class \<^verbatim>\<open>active\<close>.
\<close>

theorem exactly_one_active:
  assumes "slides s \<noteq> []"
    and "currentSlide s = Idx c" and "0 \<le> c" and "c < int (length (slides s))"
    and "cs \<noteq> []"
  shows "length (filter active (slides (advances cs s))) = 1"
proof -
  from \<open>cs \<noteq> []\<close> obtain cs' k where cs: "cs = cs' @ [k]"
    by (cases cs rule: rev_cases) auto
  let ?n = "int (length (slides s))"
  let ?t = "advances cs' s"
  let ?m = "(c + sum_list (map direction cs')) mod ?n"
  have pos: "0 < ?n" using assms(3,4) by linarith
  have "currentSlide ?t = Idx ?m"
    using assms(2-4) by (rule currentSlide_advances)
  moreover have "0 \<le> ?m" and "?m < int (length (slides ?t))"
    using pos by (simp_all add: length_slides_advances)
  ultimately have "length (filter active (slides (advance k ?t))) = 1"
    by (rule count_active_advance)
  then show ?thesis by (simp add: cs advances_snoc)
qed

theorem exactly_one_active_witness:
  "\<exists>s. constructor example_math example_page = Inr s
       \<and> slides s \<noteq> [] \<and> currentSlide s = Idx 0 \<and> length (slides s) = 3
       \<and> length (filter active (slides (advances [NextSlide, NextSlide, PrevSlide] s))) = 1"
proof -
  have "\<exists>s. constructor example_math example_page = Inr s
          \<and> currentSlide s = Idx 0 \<and> length (slides s) = 3"
    by (simp add: construct_eval example_page_def)
  then obtain s where s: "constructor example_math example_page = Inr s"
    "currentSlide s = Idx 0" "length (slides s) = 3"
    by blast
  then have ne: "slides s \<noteq> []" by auto
  have "0 \<le> (0::int)" and "0 < int (length (slides s))" using s by simp_all
  from exactly_one_active [OF ne s(2) this, of "[NextSlide, NextSlide, PrevSlide]"] s ne
  show ?thesis by (intro exI [of _ s]) simp
qed

text \<open>
  C10. With an empty slide collection, \<^verbatim>\<open>nextSlide\<close> and \<^verbatim>\<open>prevSlide\<close> set the current index
  to NaN, whatever it was, and the (empty) collection stays as it is. Both methods are
  total: there is no error for them to raise.
\<close>

theorem empty_collection_gives_NaN:
  assumes "slides s = []"
  shows "currentSlide (nextSlide s) = NaN \<and> currentSlide (prevSlide s) = NaN
         \<and> slides (nextSlide s) = slides s \<and> slides (prevSlide s) = slides s"
  using assms
  by (cases "currentSlide s")
     (simp_all add: nextSlide_def prevSlide_def updateSlides_def)

theorem empty_collection_gives_NaN_witness:
  "\<exists>s. constructor example_math empty_page = Inr s
       \<and> slides s = [] \<and> currentSlide s = Idx 0
       \<and> currentSlide (nextSlide s) = NaN \<and> currentSlide (prevSlide s) = NaN
       \<and> slides (nextSlide s) = [] \<and> slides (prevSlide s) = []"
proof -
  have "\<exists>s. constructor example_math empty_page = Inr s
          \<and> currentSlide s = Idx 0 \<and> slides s = []"
    by (simp add: construct_eval example_page_def empty_page_def)
  then obtain s where s: "constructor example_math empty_page = Inr s"
    "currentSlide s = Idx 0" "slides s = []"
    by blast
  from empty_collection_gives_NaN [OF s(3)] s
  show ?thesis by (intro exI [of _ s]) simp
qed

section \<open>Construction\<close>

lemma createCanvasPlaceholder_Some:
  "\<exists>plot s'. createCanvasPlaceholder m (Some c) i s = Inr (plot, s')"
  by (simp add: createCanvasPlaceholder_def Let_def case_prod_beta)

lemma createScatterplot_Some:
  "\<exists>plot s'. createScatterplot m (Some c) i s = Inr (plot, s')"
  by (simp add: createScatterplot_def Let_def case_prod_beta)

lemma createCanvasPlaceholder_frame:
  assumes "createCanvasPlaceholder m (Some c) i s = Inr (plot, s')"
  shows "currentSlide s' = currentSlide s \<and> slides s' = slides s
         \<and> prevBtn s' = prevBtn s \<and> nextBtn s' = nextBtn s
         \<and> keyboardHandler s' = keyboardHandler s \<and> clickListeners s' = clickListeners s
         \<and> keydownListeners s' = keydownListeners s \<and> containers s' = containers s
         \<and> THREE s' = THREE s \<and> scatterplots s' = scatterplots s"
  using assms
  by (auto simp: createCanvasPlaceholder_def draw_def requestAnimationFrame_def Let_def
      case_prod_beta)

lemma createScatterplot_frame:
  assumes "createScatterplot m (Some c) i s = Inr (plot, s')"
  shows "currentSlide s' = currentSlide s \<and> slides s' = slides s
         \<and> prevBtn s' = prevBtn s \<and> nextBtn s' = nextBtn s
         \<and> keyboardHandler s' = keyboardHandler s \<and> clickListeners s' = clickListeners s
         \<and> keydownListeners s' = keydownListeners s \<and> containers s' = containers s
         \<and> THREE s' = THREE s \<and> scatterplots s' = scatterplots s"
  using assms
  by (auto simp: createScatterplot_def animate_def requestAnimationFrame_def Let_def
      case_prod_beta)

text \<open>One round of the loop of initScatterplots, by the three ways it can go.\<close>

lemma initScatterplots_from_done:
  "3 < i \<Longrightarrow> initScatterplots_from m i s = Inr s"
  by (subst initScatterplots_from.simps) simp

lemma initScatterplots_from_absent:
  "i \<le> 3 \<Longrightarrow> containers s i = None \<Longrightarrow>
     initScatterplots_from m i s = initScatterplots_from m (i + 1) s"
  by (subst initScatterplots_from.simps) (simp add: getElementById_def)

lemma initScatterplots_from_present:
  assumes "i \<le> 3" and "containers s i = Some c"
  shows "\<exists>plot s1.
           (if THREE s then createScatterplot m (Some c) i s
            else createCanvasPlaceholder m (Some c) i s) = Inr (plot, s1)
           \<and> initScatterplots_from m i s =
               initScatterplots_from m (i + 1)
                 (s1\<lparr>scatterplots := AList.update i plot (scatterplots s1)\<rparr>)"
proof -
  obtain plot s1 where r:
    "(if THREE s then createScatterplot m (Some c) i s
      else createCanvasPlaceholder m (Some c) i s) = Inr (plot, s1)"
    using createCanvasPlaceholder_Some [of m c i s] createScatterplot_Some [of m c i s]
    by (cases "THREE s") auto
  have "initScatterplots_from m i s =
          initScatterplots_from m (i + 1)
            (s1\<lparr>scatterplots := AList.update i plot (scatterplots s1)\<rparr>)"
    using assms r by (subst initScatterplots_from.simps) (simp add: getElementById_def)
  with r show ?thesis by blast
qed

lemma create_frame:
  assumes "(if THREE s then createScatterplot m (Some c) i s
            else createCanvasPlaceholder m (Some c) i s) = Inr (plot, s')"
  shows "currentSlide s' = currentSlide s \<and> slides s' = slides s
         \<and> prevBtn s' = prevBtn s \<and> nextBtn s' = nextBtn s
         \<and> keyboardHandler s' = keyboardHandler s \<and> clickListeners s' = clickListeners s
         \<and> keydownListeners s' = keydownListeners s \<and> containers s' = containers s
         \<and> THREE s' = THREE s \<and> scatterplots s' = scatterplots s"
  using assms createCanvasPlaceholder_frame [of m c i s plot s']
    createScatterplot_frame [of m c i s plot s']
  by (cases "THREE s") simp_all

lemma initScatterplots_from_total: "\<exists>s'. initScatterplots_from m i s = Inr s'"
proof (induction "4 - i" arbitrary: i s)
  case 0
  then show ?case by (simp add: initScatterplots_from_done)
next
  case (Suc n)
  then have i: "i \<le> 3" and n: "n = 4 - (i + 1)" by simp_all
  show ?case
  proof (cases "containers s i")
    case None
    with i Suc.hyps(1) [OF n] show ?thesis by (simp add: initScatterplots_from_absent)
  next
    case (Some c)
    from initScatterplots_from_present [OF i Some, of m] Suc.hyps(1) [OF n]
    show ?thesis by auto
  qed
qed

lemma initScatterplots_from_frame:
  assumes "initScatterplots_from m i s = Inr s'"
  shows "currentSlide s' = currentSlide s \<and> slides s' = slides s
         \<and> prevBtn s' = prevBtn s \<and> nextBtn s' = nextBtn s
         \<and> keyboardHandler s' = keyboardHandler s \<and> clickListeners s' = clickListeners s
         \<and> keydownListeners s' = keydownListeners s \<and> containers s' = containers s
         \<and> THREE s' = THREE s"
  using assms
proof (induction "4 - i" arbitrary: i s)
  case 0
  then show ?case by (simp add: initScatterplots_from_done)
next
  case (Suc n)
  then have i: "i \<le> 3" and n: "n = 4 - (i + 1)" by simp_all
  show ?case
  proof (cases "containers s i")
    case None
    with i Suc.prems have "initScatterplots_from m (i + 1) s = Inr s'"
      by (simp add: initScatterplots_from_absent)
    from Suc.hyps(1) [OF n this] show ?thesis .
  next
    case (Some c)
    from initScatterplots_from_present [OF i Some, of m] obtain plot s1 where
      r: "(if THREE s then createScatterplot m (Some c) i s
           else createCanvasPlaceholder m (Some c) i s) = Inr (plot, s1)"
      and nxt: "initScatterplots_from m i s =
                  initScatterplots_from m (i + 1)
                    (s1\<lparr>scatterplots := AList.update i plot (scatterplots s1)\<rparr>)"
      by blast
    from nxt Suc.prems have
      "initScatterplots_from m (i + 1)
         (s1\<lparr>scatterplots := AList.update i plot (scatterplots s1)\<rparr>) = Inr s'"
      by simp
    from Suc.hyps(1) [OF n this] create_frame [OF r] show ?thesis by simp
  qed
qed

text \<open>The keys of the visualization map after the loop.\<close>

lemma initScatterplots_from_keys:
  assumes "initScatterplots_from m i s = Inr s'"
  shows "map_of (scatterplots s') j = None \<longleftrightarrow>
           map_of (scatterplots s) j = None \<and> \<not> (i \<le> j \<and> j \<le> 3 \<and> containers s j \<noteq> None)"
  using assms
proof (induction "4 - i" arbitrary: i s)
  case 0
  then show ?case by (simp add: initScatterplots_from_done)
next
  case (Suc n)
  then have i: "i \<le> 3" and n: "n = 4 - (i + 1)" by simp_all
  show ?case
  proof (cases "containers s i")
    case None
    with i Suc.prems have "initScatterplots_from m (i + 1) s = Inr s'"
      by (simp add: initScatterplots_from_absent)
    from Suc.hyps(1) [OF n this] None i show ?thesis
      by (cases "j = i") auto
  next
    case (Some c)
    from initScatterplots_from_present [OF i Some, of m] obtain plot s1 where
      r: "(if THREE s then createScatterplot m (Some c) i s
           else createCanvasPlaceholder m (Some c) i s) = Inr (plot, s1)"
      and nxt: "initScatterplots_from m i s =
                  initScatterplots_from m (i + 1)
                    (s1\<lparr>scatterplots := AList.update i plot (scatterplots s1)\<rparr>)"
      by blast
    from nxt Suc.prems have
      "initScatterplots_from m (i + 1)
         (s1\<lparr>scatterplots := AList.update i plot (scatterplots s1)\<rparr>) = Inr s'"
      by simp
    from Suc.hyps(1) [OF n this] create_frame [OF r] Some i show ?thesis
      by (cases "j = i") (auto simp: update_conv')
  qed
qed


subsection \<open>The constructed state\<close>

lemma init_total: "\<exists>s'. init m s = Inr s'"
  using initScatterplots_from_total
  by (cases "prevBtn s"; cases "nextBtn s")
     (simp_all add: init_def initScatterplots_def addClickListener_def)

lemma init_frame:
  assumes "init m s = Inr s'"
  shows "currentSlide s' = currentSlide s \<and> slides s' = slides s
         \<and> prevBtn s' = prevBtn s \<and> nextBtn s' = nextBtn s
         \<and> containers s' = containers s \<and> THREE s' = THREE s
         \<and> keyboardHandler s' = Some KeyboardHandler
         \<and> keydownListeners s' = addEventListener KeyboardHandler (keydownListeners s)
         \<and> clickListeners s' =
             (case (prevBtn s, nextBtn s) of
                (Some a, Some b) \<Rightarrow>
                  ((clickListeners s)(a := addEventListener PrevClick (clickListeners s a)))
                    (b := addEventListener NextClick
                            (((clickListeners s)(a := addEventListener PrevClick (clickListeners s a))) b))
              | _ \<Rightarrow> clickListeners s)"
proof -
  obtain s4 where run: "initScatterplots_from m 1 s4 = Inr s'"
    and s4: "currentSlide s4 = currentSlide s" "slides s4 = slides s"
      "prevBtn s4 = prevBtn s" "nextBtn s4 = nextBtn s"
      "containers s4 = containers s" "THREE s4 = THREE s"
      "keyboardHandler s4 = Some KeyboardHandler"
      "keydownListeners s4 = addEventListener KeyboardHandler (keydownListeners s)"
      "clickListeners s4 =
         (case (prevBtn s, nextBtn s) of
            (Some a, Some b) \<Rightarrow>
              ((clickListeners s)(a := addEventListener PrevClick (clickListeners s a)))
                (b := addEventListener NextClick
                        (((clickListeners s)(a := addEventListener PrevClick (clickListeners s a))) b))
          | _ \<Rightarrow> clickListeners s)"
    using assms
    by (cases "prevBtn s"; cases "nextBtn s")
       (simp_all add: init_def initScatterplots_def addClickListener_def)
  from initScatterplots_from_frame [OF run] s4 show ?thesis by simp
qed

lemma constructor_total: "\<exists>s. constructor m p = Inr s"
  unfolding constructor_def by (rule init_total)

lemma constructor_fields:
  assumes "constructor m p = Inr s"
  shows "currentSlide s = Idx 0" and "slides s = carouselSlides p"
    and "prevBtn s = prevControl p" and "nextBtn s = nextControl p"
    and "containers s = scatterplotContainers p"
    and "keyboardHandler s = Some KeyboardHandler"
    and "keydownListeners s = [KeyboardHandler]"
  using init_frame [OF assms [unfolded constructor_def]]
  by (simp_all add: addEventListener_def)

lemma constructor_clickListeners_none:
  assumes "constructor m p = Inr s" and "prevControl p = None \<or> nextControl p = None"
  shows "clickListeners s e = []"
  using init_frame [OF assms(1) [unfolded constructor_def]] assms(2)
  by (auto split: option.splits)

lemma constructor_clickListeners_both:
  assumes "constructor m p = Inr s" and "prevControl p = Some a" and "nextControl p = Some b"
    and "a \<noteq> b"
  shows "clickListeners s a = [PrevClick]" and "clickListeners s b = [NextClick]"
  using init_frame [OF assms(1) [unfolded constructor_def]] assms(2-4)
  by (simp_all add: addEventListener_def)

lemma init_keys:
  assumes "init m s = Inr s'"
  shows "map_of (scatterplots s') j = None \<longleftrightarrow>
           map_of (scatterplots s) j = None \<and> \<not> (1 \<le> j \<and> j \<le> 3 \<and> containers s j \<noteq> None)"
proof -
  obtain s4 where run: "initScatterplots_from m 1 s4 = Inr s'"
    and s4: "scatterplots s4 = scatterplots s" "containers s4 = containers s"
    using assms
    by (cases "prevBtn s"; cases "nextBtn s")
       (simp_all add: init_def initScatterplots_def addClickListener_def)
  from initScatterplots_from_keys [OF run, of j] s4 show ?thesis by simp
qed

lemma constructor_keys:
  assumes "constructor m p = Inr s"
  shows "map_of (scatterplots s) j = None \<longleftrightarrow>
           \<not> (1 \<le> j \<and> j \<le> 3 \<and> scatterplotContainers p j \<noteq> None)"
  using init_keys [OF assms [unfolded constructor_def], of j] by simp

subsection \<open>What the host events leave alone\<close>

lemma updateSlides_frame:
  "prevBtn (updateSlides s) = prevBtn s" "nextBtn (updateSlides s) = nextBtn s"
  "clickListeners (updateSlides s) = clickListeners s"
  "keydownListeners (updateSlides s) = keydownListeners s"
  by (simp_all add: updateSlides_def)

lemma call_listener_frame:
  "prevBtn (call_listener l ev s) = prevBtn s \<and> nextBtn (call_listener l ev s) = nextBtn s
   \<and> clickListeners (call_listener l ev s) = clickListeners s
   \<and> keydownListeners (call_listener l ev s) = keydownListeners s"
  by (cases "(l, ev, s)" rule: call_listener.cases)
     (simp_all add: nextSlide_def prevSlide_def updateSlides_frame canvas_handleResize_def
        scene_handleResize_def map_plot_def split: option.splits)

lemma fold_call_listener_frame:
  "prevBtn (fold (\<lambda>l. call_listener l ev) ls s) = prevBtn s
   \<and> nextBtn (fold (\<lambda>l. call_listener l ev) ls s) = nextBtn s
   \<and> clickListeners (fold (\<lambda>l. call_listener l ev) ls s) = clickListeners s
   \<and> keydownListeners (fold (\<lambda>l. call_listener l ev) ls s) = keydownListeners s"
  by (induction ls arbitrary: s) (simp_all add: call_listener_frame)

lemma run_callback_frame:
  "prevBtn (run_callback cb s) = prevBtn s \<and> nextBtn (run_callback cb s) = nextBtn s
   \<and> clickListeners (run_callback cb s) = clickListeners s
   \<and> keydownListeners (run_callback cb s) = keydownListeners s"
  by (cases cb) (simp_all add: draw_def animate_def requestAnimationFrame_def)

lemma fold_run_callback_frame:
  "prevBtn (fold (\<lambda>(h, cb). run_callback cb) cbs s) = prevBtn s
   \<and> nextBtn (fold (\<lambda>(h, cb). run_callback cb) cbs s) = nextBtn s
   \<and> clickListeners (fold (\<lambda>(h, cb). run_callback cb) cbs s) = clickListeners s
   \<and> keydownListeners (fold (\<lambda>(h, cb). run_callback cb) cbs s) = keydownListeners s"
  by (induction cbs arbitrary: s) (simp_all add: run_callback_frame case_prod_beta)

lemma perform_frame:
  "prevBtn (perform a s) = prevBtn s \<and> nextBtn (perform a s) = nextBtn s
   \<and> clickListeners (perform a s) = clickListeners s
   \<and> keydownListeners (perform a s) = keydownListeners s"
  by (cases a)
     (simp_all add: click_def keydown_def resize_def frame_def layout_def
        fold_call_listener_frame fold_run_callback_frame split: option.splits)

lemma performs_frame:
  "prevBtn (performs as s) = prevBtn s \<and> nextBtn (performs as s) = nextBtn s
   \<and> clickListeners (performs as s) = clickListeners s
   \<and> keydownListeners (performs as s) = keydownListeners s"
  unfolding performs_def by (induction as arbitrary: s) (simp_all add: perform_frame)

lemma keydown_arrows:
  assumes "keydownListeners s = [KeyboardHandler]"
  shows "keydown ''ArrowLeft'' s = prevSlide s" and "keydown ''ArrowRight'' s = nextSlide s"
  using assms by (simp_all add: keydown_def)


subsection \<open>The index stays within the collection\<close>

lemma index_in_range_advance:
  assumes "\<exists>c. currentSlide s = Idx c \<and> 0 \<le> c \<and> c < int (length (slides s))"
  shows "\<exists>c. currentSlide (advance k s) = Idx c \<and> 0 \<le> c
             \<and> c < int (length (slides (advance k s)))"
proof -
  from assms obtain c where c: "currentSlide s = Idx c" "0 \<le> c" "c < int (length (slides s))"
    by blast
  let ?n = "int (length (slides s))"
  have "0 < ?n" using c(2,3) by linarith
  then have "0 \<le> (c + direction k) mod ?n" and "(c + direction k) mod ?n < ?n"
    by simp_all
  with currentSlide_advance [OF c, of k] show ?thesis
    by (simp add: length_slides_advance)
qed

lemma index_in_range_call_listener:
  assumes "\<exists>c. currentSlide s = Idx c \<and> 0 \<le> c \<and> c < int (length (slides s))"
  shows "\<exists>c. currentSlide (call_listener l ev s) = Idx c \<and> 0 \<le> c
             \<and> c < int (length (slides (call_listener l ev s)))"
proof (cases "(l, ev, s)" rule: call_listener.cases)
  case (1 ev' s')
  then show ?thesis using index_in_range_advance [OF assms, of PrevSlide] by simp
next
  case (2 ev' s')
  then show ?thesis using index_in_range_advance [OF assms, of NextSlide] by simp
next
  case (3 key s')
  then show ?thesis
    using index_in_range_advance [OF assms, of PrevSlide]
      index_in_range_advance [OF assms, of NextSlide] assms
    by simp
qed (use assms in \<open>simp_all add: canvas_handleResize_def scene_handleResize_def map_plot_def
       split: option.splits\<close>)

lemma index_in_range_fold_call_listener:
  assumes "\<exists>c. currentSlide s = Idx c \<and> 0 \<le> c \<and> c < int (length (slides s))"
  shows "\<exists>c. currentSlide (fold (\<lambda>l. call_listener l ev) ls s) = Idx c \<and> 0 \<le> c
             \<and> c < int (length (slides (fold (\<lambda>l. call_listener l ev) ls s)))"
  using assms
proof (induction ls arbitrary: s)
  case Nil
  then show ?case by simp
next
  case (Cons l ls)
  from Cons.IH [OF index_in_range_call_listener [OF Cons.prems, of l ev]]
  show ?case by simp
qed

lemma fold_run_callback_navigation:
  "currentSlide (fold (\<lambda>(h, cb). run_callback cb) cbs s) = currentSlide s
   \<and> slides (fold (\<lambda>(h, cb). run_callback cb) cbs s) = slides s"
proof (induction cbs arbitrary: s)
  case Nil
  then show ?case by simp
next
  case (Cons x cbs)
  obtain h cb where x: "x = (h, cb)" by (cases x)
  have "currentSlide (run_callback cb s) = currentSlide s \<and> slides (run_callback cb s) = slides s"
    by (cases cb) (simp_all add: draw_def animate_def requestAnimationFrame_def)
  with Cons.IH [of "run_callback cb s"] show ?case by (simp add: x)
qed

lemma index_in_range_perform:
  assumes "\<exists>c. currentSlide s = Idx c \<and> 0 \<le> c \<and> c < int (length (slides s))"
  shows "\<exists>c. currentSlide (perform a s) = Idx c \<and> 0 \<le> c
             \<and> c < int (length (slides (perform a s)))"
proof (cases a)
  case (ClickOn e)
  then show ?thesis
    using index_in_range_fold_call_listener [OF assms] by (simp add: click_def)
next
  case (Press key)
  then show ?thesis
    using index_in_range_fold_call_listener [OF assms] by (simp add: keydown_def)
next
  case WindowResize
  then show ?thesis
    using index_in_range_fold_call_listener [OF assms] by (simp add: resize_def)
next
  case (Relayout i w h)
  then show ?thesis using assms by (simp add: layout_def split: option.splits)
next
  case AnimationFrame
  then show ?thesis
    using assms fold_run_callback_navigation [of "frameCallbacks s" "s\<lparr>frameCallbacks := []\<rparr>"]
    by (simp add: frame_def)
qed

text \<open>
  Every state the page reaches after construction, when there is a slide at all, has its
  index within the collection: the states the theorems on navigation are about.
\<close>

lemma reachable_index_in_range:
  assumes "constructor m p = Inr s" and "carouselSlides p \<noteq> []"
  shows "\<exists>c. currentSlide (performs as s) = Idx c \<and> 0 \<le> c
             \<and> c < int (length (slides (performs as s)))"
proof -
  have "currentSlide s = Idx 0" and "slides s = carouselSlides p"
    using assms(1) by (rule constructor_fields)+
  with assms(2) have start: "\<exists>c. currentSlide s = Idx c \<and> 0 \<le> c \<and> c < int (length (slides s))"
    by simp
  have "\<exists>c. currentSlide (fold perform as s) = Idx c \<and> 0 \<le> c
            \<and> c < int (length (slides (fold perform as s)))"
    using start
  proof (induction as arbitrary: s)
    case Nil
    then show ?case by simp
  next
    case (Cons a as)
    from Cons.IH [OF index_in_range_perform [OF Cons.prems, of a]] show ?case by simp
  qed
  then show ?thesis by (simp add: performs_def)
qed

section \<open>Bindings, events and teardown\<close>

lemmas event_eval =
  keydown_def click_def resize_def frame_def layout_def performs_def nextSlide_def
  prevSlide_def updateSlides_def classList_add_def classList_remove_def active_def
  canvas_handleResize_def scene_handleResize_def map_plot_def destroy_def destroy_plot_def
  cancelAnimationFrame_def removeEventListener_def

text \<open>
  C9. Construction never raises, whatever the page. When the previous or the next control
  is missing from the markup, no element gets a click listener, the control that is there
  included; the keyboard handler is registered all the same, and the two arrow keys call
  \<^verbatim>\<open>prevSlide\<close> and \<^verbatim>\<open>nextSlide\<close>.
\<close>

theorem click_bindings_need_both_controls:
  "\<exists>s. constructor m p = Inr s
       \<and> ((prevControl p = None \<or> nextControl p = None) \<longrightarrow> (\<forall>e. clickListeners s e = []))
       \<and> keydown ''ArrowLeft'' s = prevSlide s \<and> keydown ''ArrowRight'' s = nextSlide s"
proof -
  obtain s where s: "constructor m p = Inr s"
    using constructor_total by blast
  have keys: "keydownListeners s = [KeyboardHandler]"
    using s by (rule constructor_fields)
  have left: "keydown ''ArrowLeft'' s = prevSlide s"
    using keys by (rule keydown_arrows(1))
  have right: "keydown ''ArrowRight'' s = nextSlide s"
    using keys by (rule keydown_arrows(2))
  have "clickListeners s e = []" if "prevControl p = None \<or> nextControl p = None" for e
    using s that by (rule constructor_clickListeners_none)
  with s left right show ?thesis by blast
qed

theorem click_bindings_need_both_controls_witness:
  "\<exists>s. constructor example_math one_control_page = Inr s
       \<and> prevControl one_control_page = Some 0 \<and> nextControl one_control_page = None
       \<and> clickListeners s 0 = []
       \<and> currentSlide (keydown ''ArrowRight'' s) = Idx 1"
proof -
  from click_bindings_need_both_controls [of example_math one_control_page]
  obtain s where all: "constructor example_math one_control_page = Inr s
       \<and> ((prevControl one_control_page = None \<or> nextControl one_control_page = None)
            \<longrightarrow> (\<forall>e. clickListeners s e = []))
       \<and> keydown ''ArrowLeft'' s = prevSlide s \<and> keydown ''ArrowRight'' s = nextSlide s" ..
  then have s: "constructor example_math one_control_page = Inr s"
    and none: "prevControl one_control_page = None \<or> nextControl one_control_page = None
                 \<longrightarrow> (\<forall>e. clickListeners s e = [])"
    and key: "keydown ''ArrowRight'' s = nextSlide s"
    by simp_all
  have page: "prevControl one_control_page = Some 0" "nextControl one_control_page = None"
    by (simp_all add: one_control_page_def example_page_def)
  have no_click: "clickListeners s 0 = []"
    using none page(2) by simp
  have cur: "currentSlide s = Idx 0"
    using s by (rule constructor_fields)
  have "slides s = carouselSlides one_control_page"
    using s by (rule constructor_fields)
  then have len: "length (slides s) = 3"
    by (simp add: one_control_page_def example_page_def)
  have "currentSlide (nextSlide s) = Idx 1"
    by (simp add: nextSlide_def currentSlide_updateSlides cur len)
  with key have "currentSlide (keydown ''ArrowRight'' s) = Idx 1"
    by simp
  with s page no_click show ?thesis
    by (intro exI [of _ s] conjI)
qed

text \<open>
  C8 does not hold from every state. On the page that has the previous control only, the
  left arrow moves from slide 0 to slide 2, while a click on the previous control, which
  has no listener, leaves the carousel at slide 0. After \<^verbatim>\<open>destroy\<close> it is the other way
  round: the key does nothing and the click still moves. And where one element is both
  controls, a click runs \<^verbatim>\<open>prevSlide\<close> and then \<^verbatim>\<open>nextSlide\<close>, back to slide 0.
\<close>

theorem keyboard_click_counterexample:
  "prevControl one_control_page = Some 0
   \<and> map_sum id (currentSlide \<circ> keydown ''ArrowLeft'') (constructor example_math one_control_page)
       = Inr (Idx 2)
   \<and> map_sum id (currentSlide \<circ> click 0) (constructor example_math one_control_page)
       = Inr (Idx 0)
   \<and> map_sum id (currentSlide \<circ> keydown ''ArrowLeft'' \<circ> destroy)
         (constructor example_math example_page) = Inr (Idx 0)
   \<and> map_sum id (currentSlide \<circ> click 0 \<circ> destroy)
         (constructor example_math example_page) = Inr (Idx 2)
   \<and> map_sum id (currentSlide \<circ> keydown ''ArrowLeft'')
         (constructor example_math same_control_page) = Inr (Idx 2)
   \<and> map_sum id (currentSlide \<circ> click 0)
         (constructor example_math same_control_page) = Inr (Idx 0)"
  by (simp add: construct_eval event_eval one_control_page_def same_control_page_def
      example_page_def)

text \<open>
  C8, amended. After construction on a page whose previous and next controls are both
  present and are two distinct elements, and after any sequence of clicks, key presses,
  resizes, layout changes and animation frames (but no \<^verbatim>\<open>destroy\<close>), a left-arrow key-down
  leads to the same state as a click on the previous control, and a right-arrow key-down
  to the same state as a click on the next control.
\<close>

theorem keyboard_matches_click:
  assumes "constructor m p = Inr s0"
    and "prevControl p = Some a" and "nextControl p = Some b" and "a \<noteq> b"
  shows "keydown ''ArrowLeft'' (performs as s0) = click a (performs as s0)
         \<and> keydown ''ArrowRight'' (performs as s0) = click b (performs as s0)"
proof -
  let ?s = "performs as s0"
  have "keydownListeners s0 = [KeyboardHandler]"
    using assms(1) by (rule constructor_fields)
  then have keys: "keydownListeners ?s = [KeyboardHandler]"
    by (simp add: performs_frame)
  have "clickListeners s0 a = [PrevClick]" and "clickListeners s0 b = [NextClick]"
    using assms by (rule constructor_clickListeners_both)+
  then have clicks: "clickListeners ?s a = [PrevClick]" "clickListeners ?s b = [NextClick]"
    by (simp_all add: performs_frame)
  from keys clicks show ?thesis
    by (simp add: keydown_def click_def)
qed

theorem keyboard_matches_click_witness:
  "\<exists>s0. constructor example_math example_page = Inr s0
       \<and> prevControl example_page = Some 0 \<and> nextControl example_page = Some 1
       \<and> (0::nat) \<noteq> 1
       \<and> keydown ''ArrowLeft'' (performs [Press ''ArrowRight'', AnimationFrame] s0)
           = click 0 (performs [Press ''ArrowRight'', AnimationFrame] s0)
       \<and> keydown ''ArrowRight'' (performs [Press ''ArrowRight'', AnimationFrame] s0)
           = click 1 (performs [Press ''ArrowRight'', AnimationFrame] s0)"
proof -
  obtain s0 where s0: "constructor example_math example_page = Inr s0"
    using constructor_total by blast
  have page: "prevControl example_page = Some 0" "nextControl example_page = Some 1"
    by (simp_all add: example_page_def)
  have "(0::nat) \<noteq> 1" by simp
  from keyboard_matches_click [OF s0 page this, of "[Press ''ArrowRight'', AnimationFrame]"]
    s0 page
  show ?thesis by (intro exI [of _ s0]) simp
qed

text \<open>
  C6. When the container of slide \<open>i\<close> is absent, construction still returns a carousel
  (nothing is raised), the map \<^verbatim>\<open>scatterplots\<close> has no entry for \<open>i\<close>, every slide number from
  1 to 3 whose container is present has one, and navigation works as on any page: the
  index follows the sum of the directions modulo the slide count and exactly one slide is
  active after each call.
\<close>

theorem missing_container_is_skipped:
  assumes "scatterplotContainers p i = None"
  shows "\<exists>s. constructor m p = Inr s
          \<and> map_of (scatterplots s) i = None
          \<and> (\<forall>j. 1 \<le> j \<and> j \<le> 3 \<and> scatterplotContainers p j \<noteq> None
                 \<longrightarrow> map_of (scatterplots s) j \<noteq> None)
          \<and> (carouselSlides p \<noteq> [] \<longrightarrow>
               (\<forall>cs. currentSlide (advances cs s) =
                        Idx (sum_list (map direction cs) mod int (length (carouselSlides p)))
                      \<and> (cs \<noteq> [] \<longrightarrow> length (filter active (slides (advances cs s))) = 1)))"
proof -
  obtain s where s: "constructor m p = Inr s"
    using constructor_total by blast
  have cur: "currentSlide s = Idx 0" and sl: "slides s = carouselSlides p"
    using s by (rule constructor_fields)+
  have absent: "map_of (scatterplots s) i = None"
    using constructor_keys [OF s, of i] assms by simp
  have present: "map_of (scatterplots s) j \<noteq> None"
    if "1 \<le> j \<and> j \<le> 3 \<and> scatterplotContainers p j \<noteq> None" for j
    using constructor_keys [OF s, of j] that by simp
  have nav: "currentSlide (advances cs s) =
               Idx (sum_list (map direction cs) mod int (length (carouselSlides p)))
             \<and> (cs \<noteq> [] \<longrightarrow> length (filter active (slides (advances cs s))) = 1)"
    if ne: "carouselSlides p \<noteq> []" for cs
  proof -
    have rng: "0 \<le> (0::int)" "0 < int (length (slides s))" using ne sl by simp_all
    have pos: "0 < int (length (slides s))" by (rule rng(2))
    have idx: "currentSlide (advances cs s) =
                 Idx ((0 + sum_list (map direction cs)) mod int (length (slides s)))" for cs
      using cur rng by (rule currentSlide_advances)
    have "length (filter active (slides (advances cs s))) = 1" if "cs \<noteq> []"
    proof -
      from that obtain cs' k where cs: "cs = cs' @ [k]"
        by (cases cs rule: rev_cases) auto
      let ?c = "(0 + sum_list (map direction cs')) mod int (length (slides s))"
      have "currentSlide (advances cs' s) = Idx ?c" by (rule idx)
      moreover have "0 \<le> ?c" and "?c < int (length (slides (advances cs' s)))"
        using pos by (simp_all add: length_slides_advances)
      ultimately have "length (filter active (slides (advance k (advances cs' s)))) = 1"
        by (rule count_active_advance)
      then show ?thesis by (simp add: cs advances_snoc)
    qed
    with idx [of cs] sl show ?thesis by simp
  qed
  from s absent present nav show ?thesis by blast
qed

theorem missing_container_is_skipped_witness:
  "scatterplotContainers example_page 2 = None
   \<and> (\<exists>s. constructor example_math example_page = Inr s
         \<and> map_of (scatterplots s) 2 = None
         \<and> map_of (scatterplots s) 1 \<noteq> None \<and> map_of (scatterplots s) 3 \<noteq> None
         \<and> currentSlide (advances [NextSlide, NextSlide, NextSlide, PrevSlide] s) = Idx 2
         \<and> length (filter active (slides (advances [PrevSlide] s))) = 1)"
proof -
  have absent: "scatterplotContainers example_page 2 = None"
    by (simp add: example_page_def)
  have page: "carouselSlides example_page \<noteq> []" "length (carouselSlides example_page) = 3"
    "scatterplotContainers example_page 1 \<noteq> None" "scatterplotContainers example_page 3 \<noteq> None"
    by (simp_all add: example_page_def)
  from missing_container_is_skipped [OF absent, of example_math] obtain s where
    all: "constructor example_math example_page = Inr s
          \<and> map_of (scatterplots s) 2 = None
          \<and> (\<forall>j. 1 \<le> j \<and> j \<le> 3 \<and> scatterplotContainers example_page j \<noteq> None
                 \<longrightarrow> map_of (scatterplots s) j \<noteq> None)
          \<and> (carouselSlides example_page \<noteq> [] \<longrightarrow>
               (\<forall>cs. currentSlide (advances cs s) =
                        Idx (sum_list (map direction cs) mod int (length (carouselSlides example_page)))
                      \<and> (cs \<noteq> [] \<longrightarrow> length (filter active (slides (advances cs s))) = 1)))" ..
  then have s: "constructor example_math example_page = Inr s" "map_of (scatterplots s) 2 = None"
    and present: "\<And>j. 1 \<le> j \<and> j \<le> 3 \<and> scatterplotContainers example_page j \<noteq> None
                    \<Longrightarrow> map_of (scatterplots s) j \<noteq> None"
    and nav: "\<And>cs. currentSlide (advances cs s) =
                      Idx (sum_list (map direction cs) mod int (length (carouselSlides example_page)))"
             "\<And>cs. cs \<noteq> [] \<Longrightarrow> length (filter active (slides (advances cs s))) = 1"
    using page(1) by simp_all
  have p1: "map_of (scatterplots s) 1 \<noteq> None"
    using present [of 1] page by simp
  have p3: "map_of (scatterplots s) 3 \<noteq> None"
    using present [of 3] page by simp
  have n1: "currentSlide (advances [NextSlide, NextSlide, NextSlide, PrevSlide] s) = Idx 2"
    using nav(1) [of "[NextSlide, NextSlide, NextSlide, PrevSlide]"] page(2) by simp
  have n2: "length (filter active (slides (advances [PrevSlide] s))) = 1"
    using nav(2) [of "[PrevSlide]"] by simp
  from absent s p1 p3 n1 n2 show ?thesis
    by (intro conjI exI [of _ s])
qed

text \<open>
  The resize handler of the 3D strategy does nothing while a dimension of its container is
  zero.
\<close>

lemma scene_handleResize_zero:
  assumes "containers s i = Some c" and "clientWidth c = 0 \<or> clientHeight c = 0"
  shows "scene_handleResize i s = s"
  using assms by (auto simp: scene_handleResize_def)

lemma scene_resize_keeps_surface:
  "map_sum id (scatterplots \<circ> resize \<circ> layout 1 0 150) (constructor example_math three_page)
     = map_sum id scatterplots (constructor example_math three_page)"
  by (simp add: construct_eval event_eval example_page_def three_page_def)

text \<open>
  C3. The object a \<^verbatim>\<open>create...\<close> method returns holds the identifier of the first frame request,
  copied when the method returned; the loop stores every later identifier in the variable
  of its closure only. Called right after construction, \<^verbatim>\<open>destroy\<close> cancels both pending
  callbacks of the example page. Called after one animation frame, it cancels the
  identifiers 1 and 2, which have run already: the callbacks 3 and 4 stay pending and both
  loops go on, under the 2D strategy and under the 3D strategy alike. The resize listeners
  are removed in either case.
\<close>

theorem destroy_after_frame_leaves_callbacks:
  "map_sum id (frameCallbacks \<circ> destroy) (constructor example_math example_page) = Inr []
   \<and> map_sum id (frameCallbacks \<circ> destroy \<circ> frame) (constructor example_math example_page)
       = Inr [(3, Draw 1), (4, Draw 3)]
   \<and> map_sum id (frameCallbacks \<circ> destroy \<circ> frame) (constructor example_math three_page)
       = Inr [(3, Animate 1), (4, Animate 3)]
   \<and> map_sum id (resizeListeners \<circ> destroy \<circ> frame) (constructor example_math example_page)
       = Inr []"
  by (simp add: construct_eval event_eval example_page_def three_page_def)

text \<open>
  C7. On the example page (2D strategy) both canvases are 300 by 150 after construction.
  When the container of slide 1 has shrunk to width 0 and the window is resized, the
  handler of the 2D strategy, which has no test of the dimensions, sets the canvas of
  slide 1 to width 0.
\<close>

theorem canvas_resize_takes_zero_width:
  "map_sum id (map (canvas \<circ> snd) \<circ> scatterplots) (constructor example_math example_page)
     = Inr [\<lparr>width = 300, height = 150\<rparr>, \<lparr>width = 300, height = 150\<rparr>]
   \<and> map_sum id (map (canvas \<circ> snd) \<circ> scatterplots \<circ> resize \<circ> layout 1 0 150)
       (constructor example_math example_page)
     = Inr [\<lparr>width = 0, height = 150\<rparr>, \<lparr>width = 300, height = 150\<rparr>]"
  by (simp add: construct_eval event_eval example_page_def)

section \<open>Rounding\<close>

lemma round_half_even_of_int: "round_half_even (of_int n) = n"
  by (simp add: round_half_even_def)

lemma round_half_even_cases:
  "round_half_even q = \<lfloor>q\<rfloor> \<or> round_half_even q = \<lfloor>q\<rfloor> + 1"
  by (simp add: round_half_even_def Let_def)

lemma round_half_even_ge_floor: "\<lfloor>q\<rfloor> \<le> round_half_even q"
  using round_half_even_cases [of q] by auto

lemma round_half_even_le_ceiling: "round_half_even q \<le> \<lceil>q\<rceil>"
proof (cases "q = of_int \<lfloor>q\<rfloor>")
  case True
  then have "round_half_even q = \<lfloor>q\<rfloor>"
    by (metis round_half_even_of_int floor_of_int)
  then show ?thesis by (simp add: floor_le_ceiling)
next
  case False
  then have "\<lceil>q\<rceil> = \<lfloor>q\<rfloor> + 1"
    by (simp add: ceiling_altdef)
  then show ?thesis using round_half_even_cases [of q] by auto
qed

lemma round_half_even_mono:
  assumes "p \<le> q"
  shows "round_half_even p \<le> round_half_even q"
proof (cases "\<lfloor>p\<rfloor> = \<lfloor>q\<rfloor>")
  case True
  then have "p - of_int \<lfloor>p\<rfloor> \<le> q - of_int \<lfloor>q\<rfloor>"
    using assms by simp
  then show ?thesis
    using True by (auto simp: round_half_even_def Let_def)
next
  case False
  then have "\<lfloor>p\<rfloor> < \<lfloor>q\<rfloor>"
    using assms floor_mono [of p q] by linarith
  then have "\<lfloor>p\<rfloor> + 1 \<le> \<lfloor>q\<rfloor>" by simp
  then show ?thesis
    using round_half_even_cases [of p] round_half_even_ge_floor [of q] by linarith
qed

lemma round_half_even_le_int:
  assumes "q \<le> of_int n"
  shows "round_half_even q \<le> n"
  using round_half_even_mono [OF assms] by (simp add: round_half_even_of_int)

lemma round_half_even_ge_int:
  assumes "of_int n \<le> q"
  shows "n \<le> round_half_even q"
  using round_half_even_mono [OF assms] by (simp add: round_half_even_of_int)

lemma round_half_even_nearest:
  assumes "of_int n - 1 / 2 < q" and "q < of_int n + 1 / 2"
  shows "round_half_even q = n"
proof (cases "of_int n \<le> q")
  case True
  then have "\<lfloor>q\<rfloor> = n" using assms by linarith
  then show ?thesis using assms by (simp add: round_half_even_def Let_def)
next
  case False
  then have "\<lfloor>q\<rfloor> = n - 1" using assms by linarith
  then show ?thesis using assms False by (simp add: round_half_even_def Let_def)
qed

lemma round_half_even_tie_up:
  assumes "q = of_int n - 1 / 2" and "even n"
  shows "round_half_even q = n"
proof -
  have "\<lfloor>q\<rfloor> = n - 1" using assms(1) by linarith
  then show ?thesis using assms by (simp add: round_half_even_def Let_def)
qed

lemma round_half_even_tie_down:
  assumes "q = of_int n + 1 / 2" and "even n"
  shows "round_half_even q = n"
proof -
  have "\<lfloor>q\<rfloor> = n" using assms(1) by linarith
  then show ?thesis using assms by (simp add: round_half_even_def Let_def)
qed

section \<open>Binades\<close>

lemma halvings_le: "halvings n q \<le> n"
  by (induction n arbitrary: q) simp_all

lemma halvings_lower: "1 \<le> q \<Longrightarrow> 2 ^ halvings n q \<le> q"
proof (induction n arbitrary: q)
  case 0
  then show ?case by simp
next
  case (Suc n)
  show ?case
  proof (cases "q < 2")
    case True
    with Suc.prems show ?thesis by simp
  next
    case False
    then have "1 \<le> q / 2" by simp
    from Suc.IH [OF this] False show ?thesis by simp
  qed
qed

lemma halvings_upper: "halvings n q < n \<Longrightarrow> q < 2 ^ (halvings n q + 1)"
proof (induction n arbitrary: q)
  case 0
  then show ?case by simp
next
  case (Suc n)
  show ?case
  proof (cases "q < 2")
    case True
    then show ?thesis by simp
  next
    case False
    with Suc.prems have "halvings n (q / 2) < n" by simp
    from Suc.IH [OF this] False show ?thesis by simp
  qed
qed

lemma doublings_le: "doublings n q \<le> n"
  by (induction n arbitrary: q) simp_all

lemma doublings_ge_1: "1 \<le> q \<Longrightarrow> doublings n q = 0"
  by (cases n) simp_all

lemma doublings_lower: "doublings n q < n \<Longrightarrow> 1 \<le> q * 2 ^ doublings n q"
proof (induction n arbitrary: q)
  case 0
  then show ?case by simp
next
  case (Suc n)
  show ?case
  proof (cases "1 \<le> q")
    case True
    then show ?thesis by simp
  next
    case False
    with Suc.prems have "doublings n (2 * q) < n" by simp
    from Suc.IH [OF this] False show ?thesis by (simp add: mult.assoc mult.left_commute)
  qed
qed

lemma doublings_upper: "q < 1 \<Longrightarrow> q * 2 ^ doublings n q < 2"
proof (induction n arbitrary: q)
  case 0
  then show ?case by simp
next
  case (Suc n)
  show ?case
  proof (cases "2 * q < 1")
    case True
    from Suc.IH [OF this] Suc.prems show ?thesis by (simp add: mult.assoc mult.left_commute)
  next
    case False
    then have "doublings n (2 * q) = 0" by (simp add: doublings_ge_1)
    with Suc.prems show ?thesis by simp
  qed
qed

lemma exponent_range: "- 1022 \<le> exponent q" "exponent q \<le> 1023"
  using halvings_le [of 1023 q] doublings_le [of 1022 q] by (simp_all add: exponent_def)

lemma exponent_lower:
  assumes "- 1022 < exponent q"
  shows "2 powi exponent q \<le> q"
proof (cases "1 \<le> q")
  case True
  then show ?thesis using halvings_lower [of q 1023] by (simp add: exponent_def)
next
  case False
  let ?d = "doublings 1022 q"
  from False assms have "?d < 1022" by (simp add: exponent_def)
  then have "1 \<le> q * 2 ^ ?d" by (rule doublings_lower)
  then have "1 / 2 ^ ?d \<le> q" by (simp add: field_simps)
  moreover have "(2::rat) powi (- int ?d) = 1 / 2 ^ ?d"
    by (simp add: power_int_minus field_simps)
  ultimately show ?thesis using False by (simp add: exponent_def)
qed

lemma exponent_upper:
  assumes "exponent q < 1023"
  shows "q < 2 powi (exponent q + 1)"
proof (cases "1 \<le> q")
  case True
  with assms have "halvings 1023 q < 1023" by (simp add: exponent_def)
  then have "q < 2 ^ (halvings 1023 q + 1)" by (rule halvings_upper)
  moreover have "(2::rat) powi (int (halvings 1023 q) + 1) = 2 ^ (halvings 1023 q + 1)"
    by (simp add: power_int_add)
  ultimately show ?thesis using True by (simp add: exponent_def)
next
  case False
  let ?d = "doublings 1022 q"
  from False have "q * 2 ^ ?d < 2" by (simp add: doublings_upper)
  then have "q < 2 / 2 ^ ?d" by (simp add: field_simps)
  moreover have "(2::rat) powi (- int ?d + 1) = 2 / 2 ^ ?d"
  proof -
    have "(2::rat) powi (- int ?d + 1) = 2 powi (- int ?d) * 2 powi 1"
      by (rule power_int_add) simp
    moreover have "(2::rat) powi (- int ?d) = 1 / 2 ^ ?d"
      by (simp add: power_int_minus field_simps)
    ultimately show ?thesis by simp
  qed
  ultimately show ?thesis using False by (simp add: exponent_def)
qed

lemma exponent_mono:
  assumes "x \<le> y"
  shows "exponent x \<le> exponent y"
proof (rule ccontr)
  assume "\<not> exponent x \<le> exponent y"
  then have lt: "exponent y < exponent x" by simp
  with exponent_range [of y] have "- 1022 < exponent x" by linarith
  then have "2 powi exponent x \<le> x" by (rule exponent_lower)
  moreover from lt exponent_range [of x] have "exponent y < 1023" by linarith
  then have "y < 2 powi (exponent y + 1)" by (rule exponent_upper)
  moreover have "(2::rat) powi (exponent y + 1) \<le> 2 powi exponent x"
    using lt by (intro power_int_increasing) simp_all
  ultimately show False using assms by linarith
qed

lemma exponent_eqI:
  assumes "2 powi e \<le> q" and "q < 2 powi (e + 1)" and "- 1022 \<le> e" and "e \<le> 1023"
  shows "exponent q = e"
proof (rule ccontr)
  assume ne: "exponent q \<noteq> e"
  show False
  proof (cases "exponent q < e")
    case True
    with assms(4) have "exponent q < 1023" by linarith
    then have "q < 2 powi (exponent q + 1)" by (rule exponent_upper)
    moreover have "(2::rat) powi (exponent q + 1) \<le> 2 powi e"
      using True by (intro power_int_increasing) simp_all
    ultimately show False using assms(1) by linarith
  next
    case False
    with ne have gt: "e < exponent q" by simp
    with assms(3) have "- 1022 < exponent q" by linarith
    then have "2 powi exponent q \<le> q" by (rule exponent_lower)
    moreover have "(2::rat) powi (e + 1) \<le> 2 powi exponent q"
      using gt by (intro power_int_increasing) simp_all
    ultimately show False using assms(2) by linarith
  qed
qed

lemma ulp_pos: "0 < ulp q"
  by (simp add: ulp_def)


section \<open>The rounded magnitude\<close>

lemma scaled_upper:
  assumes "exponent q < 1023"
  shows "q / ulp q < 2 ^ 53"
proof -
  have "q < 2 powi (exponent q + 1)" using assms by (rule exponent_upper)
  moreover have "(2::rat) powi (exponent q + 1) = 2 ^ 53 * ulp q"
  proof -
    have "(2::rat) powi (53 + (exponent q - 52)) = 2 powi 53 * 2 powi (exponent q - 52)"
      by (rule power_int_add) simp
    then show ?thesis by (simp add: ulp_def add.commute)
  qed
  ultimately show ?thesis using ulp_pos [of q] by (simp add: field_simps)
qed

lemma scaled_lower:
  assumes "- 1022 < exponent q"
  shows "2 ^ 52 \<le> q / ulp q"
proof -
  have "2 powi exponent q \<le> q" using assms by (rule exponent_lower)
  moreover have "(2::rat) powi exponent q = 2 ^ 52 * ulp q"
  proof -
    have "(2::rat) powi (52 + (exponent q - 52)) = 2 powi 52 * 2 powi (exponent q - 52)"
      by (rule power_int_add) simp
    then show ?thesis by (simp add: ulp_def)
  qed
  ultimately show ?thesis using ulp_pos [of q] by (simp add: field_simps)
qed

lemma scaled_round_mono:
  assumes "0 \<le> x" and "x \<le> y"
  shows "of_int (round_half_even (x / ulp x)) * ulp x
           \<le> (of_int (round_half_even (y / ulp y)) * ulp y :: rat)"
proof (cases "exponent x = exponent y")
  case True
  then have u: "ulp x = ulp y" by (simp add: ulp_def)
  have "x / ulp y \<le> y / ulp y"
    using assms ulp_pos [of y] by (simp add: divide_right_mono)
  then have "round_half_even (x / ulp y) \<le> round_half_even (y / ulp y)"
    by (rule round_half_even_mono)
  then have "(of_int (round_half_even (x / ulp y)) :: rat) \<le> of_int (round_half_even (y / ulp y))"
    by simp
  then show ?thesis
    using ulp_pos [of y] by (simp add: u mult_right_mono)
next
  case False
  with exponent_mono [OF assms(2)] have lt: "exponent x < exponent y" by simp
  with exponent_range [of y] have "exponent x < 1023" by linarith
  then have "x / ulp x < 2 ^ 53" by (rule scaled_upper)
  then have "x / ulp x \<le> of_int (2 ^ 53)" by simp
  then have "round_half_even (x / ulp x) \<le> 2 ^ 53" by (rule round_half_even_le_int)
  then have "(of_int (round_half_even (x / ulp x)) :: rat) \<le> 2 ^ 53"
    by (metis of_int_le_iff of_int_numeral of_int_power)
  then have "of_int (round_half_even (x / ulp x)) * ulp x \<le> 2 ^ 53 * ulp x"
    using ulp_pos [of x] by (simp add: mult_right_mono)
  also have "2 ^ 53 * ulp x = 2 powi (exponent x + 1)"
  proof -
    have "(2::rat) powi (53 + (exponent x - 52)) = 2 powi 53 * 2 powi (exponent x - 52)"
      by (rule power_int_add) simp
    then show ?thesis by (simp add: ulp_def add.commute)
  qed
  also have "\<dots> \<le> 2 powi exponent y"
    using lt by (intro power_int_increasing) simp_all
  also have "\<dots> = 2 ^ 52 * ulp y"
  proof -
    have "(2::rat) powi (52 + (exponent y - 52)) = 2 powi 52 * 2 powi (exponent y - 52)"
      by (rule power_int_add) simp
    then show ?thesis by (simp add: ulp_def)
  qed
  also have "\<dots> \<le> of_int (round_half_even (y / ulp y)) * ulp y"
  proof -
    from lt exponent_range [of x] have "- 1022 < exponent y" by linarith
    then have "2 ^ 52 \<le> y / ulp y" by (rule scaled_lower)
    then have "of_int (2 ^ 52) \<le> y / ulp y" by simp
    then have "2 ^ 52 \<le> round_half_even (y / ulp y)" by (rule round_half_even_ge_int)
    then have "(2 ^ 52 :: rat) \<le> of_int (round_half_even (y / ulp y))"
      by (metis of_int_le_iff of_int_numeral of_int_power)
    then show ?thesis using ulp_pos [of y] by (simp add: mult_right_mono)
  qed
  finally show ?thesis .
qed

lemma magnitude_mono:
  assumes "0 \<le> x" and "x \<le> y"
  shows "magnitude x \<le> magnitude y"
  using scaled_round_mono [OF assms] by (simp add: magnitude_def)

lemma magnitude_nonneg:
  assumes "0 \<le> x"
  shows "0 \<le> magnitude x"
proof -
  have "of_int 0 \<le> x / ulp x" using assms ulp_pos [of x] by simp
  then have "0 \<le> round_half_even (x / ulp x)" by (rule round_half_even_ge_int)
  then show ?thesis using ulp_pos [of x] by (simp add: magnitude_def)
qed

lemma magnitude_0: "magnitude 0 = 0"
  by (simp add: magnitude_def round_half_even_def)


section \<open>The nearest double\<close>

lemma round_double_nonneg:
  assumes "0 \<le> q"
  shows "round_double q = (if 2 ^ 1024 \<le> magnitude q then PosInf else Fin (magnitude q))"
  using assms by (simp add: round_double_def Let_def)

lemma round_double_neg:
  assumes "q < 0"
  shows "round_double q = (if 2 ^ 1024 \<le> magnitude (- q) then NegInf else Fin (- magnitude (- q)))"
  using assms by (simp add: round_double_def Let_def)

lemma round_double_0: "round_double 0 = Fin 0"
  by (simp add: round_double_def magnitude_0)

lemma round_double_Fin_magnitude:
  assumes "round_double q = Fin a"
  shows "magnitude \<bar>q\<bar> < 2 ^ 1024" and "a = (if q < 0 then - magnitude \<bar>q\<bar> else magnitude \<bar>q\<bar>)"
  using assms by (auto simp: round_double_def Let_def split: if_splits)

lemma round_double_mono:
  assumes "x \<le> y" and "round_double x = Fin a" and "round_double y = Fin b"
  shows "a \<le> b"
proof -
  note mx = round_double_Fin_magnitude [OF assms(2)]
  note my = round_double_Fin_magnitude [OF assms(3)]
  consider "0 \<le> x" | "x < 0" "0 \<le> y" | "y < 0" using assms(1) by linarith
  then show ?thesis
  proof cases
    case 1
    then have "magnitude x \<le> magnitude y" using assms(1) by (rule magnitude_mono)
    with 1 assms(1) mx(2) my(2) show ?thesis by simp
  next
    case 2
    have "0 \<le> magnitude (- x)" using 2(1) by (simp add: magnitude_nonneg)
    moreover have "0 \<le> magnitude y" using 2(2) by (rule magnitude_nonneg)
    ultimately show ?thesis using 2 mx(2) my(2) by simp
  next
    case 3
    then have "0 \<le> - y" and "- y \<le> - x" using assms(1) by simp_all
    then have "magnitude (- y) \<le> magnitude (- x)" by (rule magnitude_mono)
    with 3 assms(1) mx(2) my(2) show ?thesis by simp
  qed
qed

lemma round_double_finite:
  assumes "lo \<le> x" and "x \<le> hi" and "round_double lo = Fin a" and "round_double hi = Fin b"
  shows "\<exists>c. round_double x = Fin c"
proof (cases "0 \<le> x")
  case True
  then have "magnitude x \<le> magnitude hi" using assms(2) by (rule magnitude_mono)
  moreover have "magnitude hi < 2 ^ 1024"
    using round_double_Fin_magnitude(1) [OF assms(4)] True assms(2) by simp
  ultimately show ?thesis using True by (simp add: round_double_nonneg)
next
  case False
  then have "0 \<le> - x" and "- x \<le> - lo" using assms(1) by simp_all
  then have "magnitude (- x) \<le> magnitude (- lo)" by (rule magnitude_mono)
  moreover have "magnitude (- lo) < 2 ^ 1024"
    using round_double_Fin_magnitude(1) [OF assms(3)] False assms(1) by simp
  ultimately show ?thesis using False by (simp add: round_double_neg)
qed

lemma round_double_between:
  assumes "lo \<le> x" and "x \<le> hi" and "round_double lo = Fin a" and "round_double hi = Fin b"
  shows "\<exists>c. round_double x = Fin c \<and> a \<le> c \<and> c \<le> b"
proof -
  from round_double_finite [OF assms] obtain c where c: "round_double x = Fin c" ..
  have "a \<le> c" using assms(1,3) c by (rule round_double_mono)
  moreover have "c \<le> b" using assms(2) c assms(4) by (rule round_double_mono)
  ultimately show ?thesis using c by blast
qed

lemma ulp_scaled:
  assumes "k \<le> 1074" and "2 ^ 52 \<le> q * 2 ^ k" and "q * 2 ^ k < 2 ^ 53"
  shows "ulp q = 1 / 2 ^ k"
proof -
  let ?e = "52 - int k"
  have inv: "(2::rat) powi (- int k) = 1 / 2 ^ k"
    by (simp add: power_int_minus field_simps)
  have e: "(2::rat) powi ?e = 2 ^ 52 / 2 ^ k"
  proof -
    have "(2::rat) powi (52 + - int k) = 2 powi 52 * 2 powi (- int k)"
      by (rule power_int_add) simp
    with inv show ?thesis by simp
  qed
  have e1: "(2::rat) powi (?e + 1) = 2 ^ 53 / 2 ^ k"
  proof -
    have "(2::rat) powi (53 + - int k) = 2 powi 53 * 2 powi (- int k)"
      by (rule power_int_add) simp
    moreover have "53 + - int k = ?e + 1" by simp
    ultimately show ?thesis using inv by simp
  qed
  have "exponent q = ?e"
  proof (rule exponent_eqI)
    show "2 powi ?e \<le> q" unfolding e using assms(2) by (simp add: field_simps)
    show "q < 2 powi (?e + 1)" unfolding e1 using assms(3) by (simp add: field_simps)
    show "- 1022 \<le> ?e" using assms(1) by simp
    show "?e \<le> 1023" by simp
  qed
  then have "ulp q = 2 powi (- int k)" by (simp add: ulp_def)
  with inv show ?thesis by simp
qed

lemma round_double_scaled:
  assumes "0 \<le> q" and "k \<le> 1074" and "2 ^ 52 \<le> q * 2 ^ k" and "q * 2 ^ k < 2 ^ 53"
    and "round_half_even (q * 2 ^ k) = n"
  shows "round_double q = Fin (of_int n / 2 ^ k)"
proof -
  have u: "ulp q = 1 / 2 ^ k" using assms(2-4) by (rule ulp_scaled)
  then have m: "magnitude q = of_int n / 2 ^ k"
    using assms(5) by (simp add: magnitude_def)
  have "q * 2 ^ k \<le> of_int (2 ^ 53)" using assms(4) by simp
  then have "round_half_even (q * 2 ^ k) \<le> 2 ^ 53" by (rule round_half_even_le_int)
  then have "(of_int n :: rat) \<le> 2 ^ 53"
    using assms(5) by (metis of_int_le_iff of_int_numeral of_int_power)
  then have "(of_int n :: rat) / 2 ^ k \<le> 2 ^ 53 / 2 ^ k"
    by (rule divide_right_mono) simp
  also have "(2::rat) ^ 53 / 2 ^ k \<le> 2 ^ 53 / 1"
    by (rule divide_left_mono) simp_all
  finally have "(of_int n :: rat) / 2 ^ k \<le> 2 ^ 53" by simp
  moreover have "(2::rat) ^ 53 < 2 ^ 1024" by simp
  ultimately have "magnitude q < 2 ^ 1024" using m by simp
  then show ?thesis using assms(1) m by (simp add: round_double_nonneg)
qed

lemma round_double_minus:
  "round_double (- q) = fl_neg (round_double q)"
  by (cases "q = 0") (auto simp: round_double_def Let_def magnitude_0)

text \<open>The largest binary64 value below 1.\<close>

lemma unit_double_max:
  assumes "round_double q = Fin q" and "0 \<le> q" and "q < 1"
  shows "q \<le> 1 - 1 / 2 ^ 53"
proof (rule ccontr)
  assume "\<not> q \<le> 1 - 1 / 2 ^ 53"
  then have gt: "1 - 1 / 2 ^ 53 < q" by simp
  then have lo: "2 ^ 53 - 1 < q * 2 ^ 53" by (simp add: field_simps)
  have hi: "q * 2 ^ 53 < 2 ^ 53" using assms(3) by simp
  have "2 ^ 52 \<le> q * 2 ^ 53" using lo by simp
  with hi have "round_double q = Fin (of_int (round_half_even (q * 2 ^ 53)) / 2 ^ 53)"
    using assms(2) by (intro round_double_scaled) simp_all
  with assms(1) have "q * 2 ^ 53 = of_int (round_half_even (q * 2 ^ 53))"
    by (simp add: field_simps)
  then obtain n :: int where n: "q * 2 ^ 53 = of_int n" ..
  from lo hi have "of_int (2 ^ 53 - 1) < (of_int n :: rat)" and "(of_int n :: rat) < of_int (2 ^ 53)"
    unfolding n by simp_all
  then have "2 ^ 53 - 1 < n" and "n < 2 ^ 53"
    unfolding of_int_less_iff by simp_all
  then show False by linarith
qed

section \<open>The constants of the generator, rounded\<close>

text \<open>
  The nearest binary64 value of each literal of \<^verbatim>\<open>generateSampleData\<close>, and of the products
  and sums at the two ends of each band, the draw being 0 or the largest value below 1.
\<close>

lemma rd_3_10: "round_double (3 / 10) = Fin (5404319552844595 / 18014398509481984)"
proof -
  have "round_half_even ((3 / 10) * 2 ^ 54) = 5404319552844595"
    by (rule round_half_even_nearest) simp_all
  then have "round_double (3 / 10) = Fin (of_int 5404319552844595 / 2 ^ 54)"
    by (intro round_double_scaled) simp_all
  then show ?thesis by simp
qed

lemma rd_7_10: "round_double (7 / 10) = Fin (3152519739159347 / 4503599627370496)"
proof -
  have "round_half_even ((7 / 10) * 2 ^ 53) = 6305039478318694"
    by (rule round_half_even_nearest) simp_all
  then have "round_double (7 / 10) = Fin (of_int 6305039478318694 / 2 ^ 53)"
    by (intro round_double_scaled) simp_all
  then show ?thesis by simp
qed

lemma rd_1_2: "round_double (1 / 2) = Fin (1 / 2)"
proof -
  have "round_half_even ((1 / 2) * 2 ^ 53) = 4503599627370496"
    by (rule round_half_even_nearest) simp_all
  then have "round_double (1 / 2) = Fin (of_int 4503599627370496 / 2 ^ 53)"
    by (intro round_double_scaled) simp_all
  then show ?thesis by simp
qed

lemma rd_4_5: "round_double (4 / 5) = Fin (3602879701896397 / 4503599627370496)"
proof -
  have "round_half_even ((4 / 5) * 2 ^ 53) = 7205759403792794"
    by (rule round_half_even_nearest) simp_all
  then have "round_double (4 / 5) = Fin (of_int 7205759403792794 / 2 ^ 53)"
    by (intro round_double_scaled) simp_all
  then show ?thesis by simp
qed

lemma rd_1_5: "round_double (1 / 5) = Fin (3602879701896397 / 18014398509481984)"
proof -
  have "round_half_even ((1 / 5) * 2 ^ 55) = 7205759403792794"
    by (rule round_half_even_nearest) simp_all
  then have "round_double (1 / 5) = Fin (of_int 7205759403792794 / 2 ^ 55)"
    by (intro round_double_scaled) simp_all
  then show ?thesis by simp
qed

lemma rd_1: "round_double 1 = Fin 1"
proof -
  have "round_half_even (1 * 2 ^ 52) = 4503599627370496"
    by (rule round_half_even_nearest) simp_all
  then have "round_double 1 = Fin (of_int 4503599627370496 / 2 ^ 52)"
    by (intro round_double_scaled) simp_all
  then show ?thesis by simp
qed

lemma rd_2: "round_double 2 = Fin 2"
proof -
  have "round_half_even (2 * 2 ^ 51) = 4503599627370496"
    by (rule round_half_even_nearest) simp_all
  then have "round_double 2 = Fin (of_int 4503599627370496 / 2 ^ 51)"
    by (intro round_double_scaled) simp_all
  then show ?thesis by simp
qed

lemma rd_max: "round_double (9007199254740991 / 9007199254740992) = Fin (9007199254740991 / 9007199254740992)"
proof -
  have "round_half_even ((9007199254740991 / 9007199254740992) * 2 ^ 53) = 9007199254740991"
    by (rule round_half_even_nearest) simp_all
  then have "round_double (9007199254740991 / 9007199254740992) = Fin (of_int 9007199254740991 / 2 ^ 53)"
    by (intro round_double_scaled) simp_all
  then show ?thesis by simp
qed

lemma rd_red_scaled: "round_double (28395373445112333639566561692877 / 40564819207303340847894502572032) = Fin (6305039478318693 / 9007199254740992)"
proof -
  have "round_half_even ((28395373445112333639566561692877 / 40564819207303340847894502572032) * 2 ^ 53) = 6305039478318693"
    by (rule round_half_even_nearest) simp_all
  then have "round_double (28395373445112333639566561692877 / 40564819207303340847894502572032) = Fin (of_int 6305039478318693 / 2 ^ 53)"
    by (intro round_double_scaled) simp_all
  then show ?thesis by simp
qed

lemma rd_red_low: "round_double (5404319552844595 / 18014398509481984) = Fin (5404319552844595 / 18014398509481984)"
proof -
  have "round_half_even ((5404319552844595 / 18014398509481984) * 2 ^ 54) = 5404319552844595"
    by (rule round_half_even_nearest) simp_all
  then have "round_double (5404319552844595 / 18014398509481984) = Fin (of_int 5404319552844595 / 2 ^ 54)"
    by (intro round_double_scaled) simp_all
  then show ?thesis by simp
qed

lemma rd_red_high: "round_double (18014398509481981 / 18014398509481984) = Fin (4503599627370495 / 4503599627370496)"
proof -
  have "round_half_even ((18014398509481981 / 18014398509481984) * 2 ^ 53) = 9007199254740990"
    by (rule round_half_even_tie_down) simp_all
  then have "round_double (18014398509481981 / 18014398509481984) = Fin (of_int 9007199254740990 / 2 ^ 53)"
    by (intro round_double_scaled) simp_all
  then show ?thesis by simp
qed

lemma rd_green_scaled: "round_double (9007199254740991 / 18014398509481984) = Fin (9007199254740991 / 18014398509481984)"
proof -
  have "round_half_even ((9007199254740991 / 18014398509481984) * 2 ^ 54) = 9007199254740991"
    by (rule round_half_even_nearest) simp_all
  then have "round_double (9007199254740991 / 18014398509481984) = Fin (of_int 9007199254740991 / 2 ^ 54)"
    by (intro round_double_scaled) simp_all
  then show ?thesis by simp
qed

lemma rd_green_high: "round_double (18014398509481983 / 18014398509481984) = Fin 1"
proof -
  have "round_half_even ((18014398509481983 / 18014398509481984) * 2 ^ 53) = 9007199254740992"
    by (rule round_half_even_tie_up) simp_all
  then have "round_double (18014398509481983 / 18014398509481984) = Fin (of_int 9007199254740992 / 2 ^ 53)"
    by (intro round_double_scaled) simp_all
  then show ?thesis by simp
qed

lemma rd_blue_scaled: "round_double (32451855365842670876875751109427 / 162259276829213363391578010288128) = Fin (7205759403792793 / 36028797018963968)"
proof -
  have "round_half_even ((32451855365842670876875751109427 / 162259276829213363391578010288128) * 2 ^ 55) = 7205759403792793"
    by (rule round_half_even_nearest) simp_all
  then have "round_double (32451855365842670876875751109427 / 162259276829213363391578010288128) = Fin (of_int 7205759403792793 / 2 ^ 55)"
    by (intro round_double_scaled) simp_all
  then show ?thesis by simp
qed

lemma rd_blue_low: "round_double (3602879701896397 / 4503599627370496) = Fin (3602879701896397 / 4503599627370496)"
proof -
  have "round_half_even ((3602879701896397 / 4503599627370496) * 2 ^ 53) = 7205759403792794"
    by (rule round_half_even_nearest) simp_all
  then have "round_double (3602879701896397 / 4503599627370496) = Fin (of_int 7205759403792794 / 2 ^ 53)"
    by (intro round_double_scaled) simp_all
  then show ?thesis by simp
qed

lemma rd_blue_high: "round_double (36028797018963969 / 36028797018963968) = Fin 1"
proof -
  have "round_half_even ((36028797018963969 / 36028797018963968) * 2 ^ 52) = 4503599627370496"
    by (rule round_half_even_nearest) simp_all
  then have "round_double (36028797018963969 / 36028797018963968) = Fin (of_int 4503599627370496 / 2 ^ 52)"
    by (intro round_double_scaled) simp_all
  then show ?thesis by simp
qed

lemma rd_radius_scaled: "round_double (9007199254740991 / 4503599627370496) = Fin (9007199254740991 / 4503599627370496)"
proof -
  have "round_half_even ((9007199254740991 / 4503599627370496) * 2 ^ 52) = 9007199254740991"
    by (rule round_half_even_nearest) simp_all
  then have "round_double (9007199254740991 / 4503599627370496) = Fin (of_int 9007199254740991 / 2 ^ 52)"
    by (intro round_double_scaled) simp_all
  then show ?thesis by simp
qed

lemma rd_radius_high: "round_double (13510798882111487 / 4503599627370496) = Fin 3"
proof -
  have "round_half_even ((13510798882111487 / 4503599627370496) * 2 ^ 51) = 6755399441055744"
    by (rule round_half_even_tie_up) simp_all
  then have "round_double (13510798882111487 / 4503599627370496) = Fin (of_int 6755399441055744 / 2 ^ 51)"
    by (intro round_double_scaled) simp_all
  then show ?thesis by simp
qed

lemma rd_height_centre_low: "round_double (- (1 / 2)) = Fin (- (1 / 2))"
proof -
  have "round_half_even ((1 / 2) * 2 ^ 53) = 4503599627370496"
    by (rule round_half_even_nearest) simp_all
  then have "round_double (1 / 2) = Fin (of_int 4503599627370496 / 2 ^ 53)"
    by (intro round_double_scaled) simp_all
  then have "round_double (1 / 2) = Fin (1 / 2)" by simp
  then show ?thesis using round_double_minus [of "(1 / 2)"] by simp
qed

lemma rd_height_centre_high: "round_double (4503599627370495 / 9007199254740992) = Fin (4503599627370495 / 9007199254740992)"
proof -
  have "round_half_even ((4503599627370495 / 9007199254740992) * 2 ^ 54) = 9007199254740990"
    by (rule round_half_even_nearest) simp_all
  then have "round_double (4503599627370495 / 9007199254740992) = Fin (of_int 9007199254740990 / 2 ^ 54)"
    by (intro round_double_scaled) simp_all
  then show ?thesis by simp
qed

lemma rd_height_low: "round_double (- 1) = Fin (- 1)"
proof -
  have "round_half_even (1 * 2 ^ 52) = 4503599627370496"
    by (rule round_half_even_nearest) simp_all
  then have "round_double 1 = Fin (of_int 4503599627370496 / 2 ^ 52)"
    by (intro round_double_scaled) simp_all
  then have "round_double 1 = Fin 1" by simp
  then show ?thesis using round_double_minus [of "1"] by simp
qed

lemma rd_height_high: "round_double (4503599627370495 / 4503599627370496) = Fin (4503599627370495 / 4503599627370496)"
proof -
  have "round_half_even ((4503599627370495 / 4503599627370496) * 2 ^ 53) = 9007199254740990"
    by (rule round_half_even_nearest) simp_all
  then have "round_double (4503599627370495 / 4503599627370496) = Fin (of_int 9007199254740990 / 2 ^ 53)"
    by (intro round_double_scaled) simp_all
  then show ?thesis by simp
qed

lemma rd_3: "round_double 3 = Fin 3"
proof -
  have "round_half_even (3 * 2 ^ 51) = 6755399441055744"
    by (rule round_half_even_nearest) simp_all
  then have "round_double 3 = Fin (of_int 6755399441055744 / 2 ^ 51)"
    by (intro round_double_scaled) simp_all
  then show ?thesis by simp
qed

lemma rd_red_scaled_shape: "round_double ((9007199254740991 / 9007199254740992) * (3152519739159347 / 4503599627370496)) = Fin (6305039478318693 / 9007199254740992)"
  using rd_red_scaled by simp

lemma rd_red_high_shape: "round_double ((5404319552844595 / 18014398509481984) + (6305039478318693 / 9007199254740992)) = Fin (4503599627370495 / 4503599627370496)"
  using rd_red_high by simp

lemma rd_green_scaled_shape: "round_double ((9007199254740991 / 9007199254740992) * (1 / 2)) = Fin (9007199254740991 / 18014398509481984)"
  using rd_green_scaled by simp

lemma rd_green_high_shape: "round_double ((1 / 2) + (9007199254740991 / 18014398509481984)) = Fin 1"
  using rd_green_high by simp

lemma rd_blue_scaled_shape: "round_double ((9007199254740991 / 9007199254740992) * (3602879701896397 / 18014398509481984)) = Fin (7205759403792793 / 36028797018963968)"
  using rd_blue_scaled by simp

lemma rd_blue_high_shape: "round_double ((3602879701896397 / 4503599627370496) + (7205759403792793 / 36028797018963968)) = Fin 1"
  using rd_blue_high by simp

lemma rd_radius_scaled_shape: "round_double ((9007199254740991 / 9007199254740992) * 2) = Fin (9007199254740991 / 4503599627370496)"
  using rd_radius_scaled by simp

lemma rd_radius_high_shape: "round_double (1 + (9007199254740991 / 4503599627370496)) = Fin 3"
  using rd_radius_high by simp

lemma rd_height_centre_low_shape: "round_double (- (1 / 2)) = Fin (- (1 / 2))"
  using rd_height_centre_low by simp

lemma rd_height_centre_high_shape: "round_double ((9007199254740991 / 9007199254740992) - (1 / 2)) = Fin (4503599627370495 / 9007199254740992)"
  using rd_height_centre_high by simp

lemma rd_height_low_shape: "round_double (- (1 / 2) * 2) = Fin (- 1)"
  using rd_height_low by simp

lemma rd_height_high_shape: "round_double ((4503599627370495 / 9007199254740992) * 2) = Fin (4503599627370495 / 4503599627370496)"
  using rd_height_high by simp

section \<open>The sample data\<close>

lemma generateSampleData_loop_points:
  "fst (generateSampleData_loop m k np i n pts) =
     pts @ map (\<lambda>j. sample_point m k np (i + int j) (n + 7 * j)) [0..<nat (np - i)]"
proof (induction m k np i n pts rule: generateSampleData_loop.induct)
  case (1 m k np i n pts)
  show ?case
  proof (cases "i < np")
    case True
    then have count: "nat (np - i) = Suc (nat (np - (i + 1)))" by simp
    have "fst (generateSampleData_loop m k np i n pts) =
            fst (generateSampleData_loop m k np (i + 1) (n + 7)
                   (pts @ [sample_point m k np i n]))"
      using True by (subst generateSampleData_loop.simps) simp
    also have "\<dots> = (pts @ [sample_point m k np i n]) @
                 map (\<lambda>j. sample_point m k np (i + 1 + int j) (n + 7 + 7 * j))
                   [0..<nat (np - (i + 1))]"
      using True by (rule "1.IH")
    also have "\<dots> = pts @ map (\<lambda>j. sample_point m k np (i + int j) (n + 7 * j))
                 [0..<nat (np - i)]"
      unfolding count map_upt_Suc by (simp add: add.assoc add.commute add.left_commute)
    finally show ?thesis .
  next
    case False
    then show ?thesis by (subst generateSampleData_loop.simps) simp
  qed
qed

lemma generateSampleData_points:
  "fst (generateSampleData m k n) =
     map (\<lambda>j. sample_point m k (50 + k * 20) (int j) (n + 7 * j)) [0..<nat (50 + k * 20)]"
  by (simp add: generateSampleData_def generateSampleData_loop_points)

lemma length_generateSampleData:
  "length (fst (generateSampleData m k n)) = nat (50 + k * 20)"
  by (simp add: generateSampleData_points)

lemma hd_generateSampleData:
  assumes "0 < 50 + k * 20"
  shows "hd (fst (generateSampleData m k n)) = sample_point m k (50 + k * 20) 0 n"
proof -
  from assms have "0 < nat (50 + k * 20)" by simp
  then have "[0..<nat (50 + k * 20)] = 0 # [Suc 0..<nat (50 + k * 20)]"
    by (simp add: upt_conv_Cons)
  then show ?thesis by (simp add: generateSampleData_points)
qed

text \<open>
  C4. For a slide ordinal \<open>k \<ge> 0\<close>, \<^verbatim>\<open>generateSampleData(k)\<close> returns exactly \<open>50 + 20 k\<close>
  points, whatever the draws of \<^verbatim>\<open>Math.random\<close> and whatever the host's cosine and sine.
\<close>

theorem sample_count:
  assumes "0 \<le> k"
  shows "int (length (fst (generateSampleData m k n))) = 50 + 20 * k
         \<and> length (fst (generateSampleData m' k n')) = length (fst (generateSampleData m k n))"
  using assms by (simp add: length_generateSampleData)

theorem sample_count_witness:
  "(0::int) \<le> 3 \<and> length (fst (generateSampleData example_math 3 0)) = 110"
  using sample_count [of 3 example_math 0 example_math 0] by simp

subsection \<open>One draw\<close>

lemma unit_double_cases:
  assumes "unit_double d"
  obtains q where "d = Fin q" and "0 \<le> q" and "q \<le> 9007199254740991 / 9007199254740992"
proof -
  from assms obtain q where q: "d = Fin q" "0 \<le> q" "q < 1" "round_double q = Fin q"
    by (cases d) auto
  from unit_double_max [OF q(4) q(2) q(3)] have "q \<le> 9007199254740991 / 9007199254740992"
    by simp
  with q that show ?thesis by blast
qed

lemma scaled_draw_bounds:
  assumes "0 \<le> q" and "q \<le> qm" and "0 \<le> cb"
    and "round_double (qm * cb) = Fin t"
    and "round_double ca = Fin lo"
    and "round_double (ca + t) = Fin hi"
  shows "\<exists>v. fl_add (Fin ca) (fl_mul (Fin q) (Fin cb)) = Fin v \<and> lo \<le> v \<and> v \<le> hi"
proof -
  have "0 \<le> q * cb" and "q * cb \<le> qm * cb"
    using assms(1-3) by (simp_all add: mult_right_mono)
  from round_double_between [OF this round_double_0 assms(4)]
  obtain w where w: "round_double (q * cb) = Fin w" "0 \<le> w" "w \<le> t" by blast
  then have "ca \<le> ca + w" and "ca + w \<le> ca + t" by simp_all
  from round_double_between [OF this assms(5,6)]
  obtain v where "round_double (ca + w) = Fin v" "lo \<le> v" "v \<le> hi" by blast
  with w(1) show ?thesis by simp
qed

lemma centred_draw_bounds:
  assumes "0 \<le> q" and "q \<le> qm" and "0 \<le> f"
    and "round_double (- h) = Fin a"
    and "round_double (qm - h) = Fin b"
    and "round_double (a * f) = Fin lo"
    and "round_double (b * f) = Fin hi"
  shows "\<exists>v. fl_mul (fl_sub (Fin q) (Fin h)) (Fin f) = Fin v \<and> lo \<le> v \<and> v \<le> hi"
proof -
  have "- h \<le> q - h" and "q - h \<le> qm - h"
    using assms(1,2) by simp_all
  from round_double_between [OF this assms(4,5)]
  obtain w where w: "round_double (q - h) = Fin w" "a \<le> w" "w \<le> b" by blast
  then have "a * f \<le> w * f" and "w * f \<le> b * f"
    using assms(3) by (simp_all add: mult_right_mono)
  from round_double_between [OF this assms(6,7)]
  obtain v where "round_double (w * f) = Fin v" "lo \<le> v" "v \<le> hi" by blast
  with w(1) show ?thesis by (simp add: fl_sub_def)
qed

lemma red_bounds:
  assumes "unit_double d"
  shows "fl_le (lit (3 / 10)) (fl_add (lit (3 / 10)) (fl_mul d (lit (7 / 10))))
         \<and> fl_less (fl_add (lit (3 / 10)) (fl_mul d (lit (7 / 10)))) (lit 1)"
proof -
  from assms obtain q where q: "d = Fin q" "0 \<le> q" "q \<le> 9007199254740991 / 9007199254740992"
    by (rule unit_double_cases)
  have lits:
    "lit (3 / 10) = Fin (5404319552844595 / 18014398509481984)"
    "lit (7 / 10) = Fin (3152519739159347 / 4503599627370496)"
    "lit 1 = Fin 1"
    using rd_3_10 rd_7_10 rd_1 by (simp_all add: lit_def)
  have nn: "(0::rat) \<le> (3152519739159347 / 4503599627370496)" by simp
  from scaled_draw_bounds [OF q(2,3) nn rd_red_scaled_shape rd_red_low rd_red_high_shape]
  obtain v where v: "fl_add (Fin (5404319552844595 / 18014398509481984)) (fl_mul (Fin q) (Fin (3152519739159347 / 4503599627370496))) = Fin v"
    and lo: "(5404319552844595 / 18014398509481984) \<le> v" and hi: "v \<le> 4503599627370495 / 4503599627370496"
    by blast
  show ?thesis
    unfolding lits q(1) v using lo hi by simp
qed

lemma green_bounds:
  assumes "unit_double d"
  shows "fl_le (lit (5 / 10)) (fl_add (lit (5 / 10)) (fl_mul d (lit (5 / 10))))
         \<and> fl_le (fl_add (lit (5 / 10)) (fl_mul d (lit (5 / 10)))) (lit 1)"
proof -
  from assms obtain q where q: "d = Fin q" "0 \<le> q" "q \<le> 9007199254740991 / 9007199254740992"
    by (rule unit_double_cases)
  have lits:
    "lit (5 / 10) = Fin (1 / 2)"
    "lit 1 = Fin 1"
    using rd_1_2 rd_1 by (simp_all add: lit_def)
  have nn: "(0::rat) \<le> (1 / 2)" by simp
  from scaled_draw_bounds [OF q(2,3) nn rd_green_scaled_shape rd_1_2 rd_green_high_shape]
  obtain v where v: "fl_add (Fin (1 / 2)) (fl_mul (Fin q) (Fin (1 / 2))) = Fin v"
    and lo: "(1 / 2) \<le> v" and hi: "v \<le> 1"
    by blast
  show ?thesis
    unfolding lits q(1) v using lo hi by simp
qed

lemma blue_bounds:
  assumes "unit_double d"
  shows "fl_le (lit (8 / 10)) (fl_add (lit (8 / 10)) (fl_mul d (lit (2 / 10))))
         \<and> fl_le (fl_add (lit (8 / 10)) (fl_mul d (lit (2 / 10)))) (lit 1)"
proof -
  from assms obtain q where q: "d = Fin q" "0 \<le> q" "q \<le> 9007199254740991 / 9007199254740992"
    by (rule unit_double_cases)
  have lits:
    "lit (8 / 10) = Fin (3602879701896397 / 4503599627370496)"
    "lit (2 / 10) = Fin (3602879701896397 / 18014398509481984)"
    "lit 1 = Fin 1"
    using rd_4_5 rd_1_5 rd_1 by (simp_all add: lit_def)
  have nn: "(0::rat) \<le> (3602879701896397 / 18014398509481984)" by simp
  from scaled_draw_bounds [OF q(2,3) nn rd_blue_scaled_shape rd_blue_low rd_blue_high_shape]
  obtain v where v: "fl_add (Fin (3602879701896397 / 4503599627370496)) (fl_mul (Fin q) (Fin (3602879701896397 / 18014398509481984))) = Fin v"
    and lo: "(3602879701896397 / 4503599627370496) \<le> v" and hi: "v \<le> 1"
    by blast
  show ?thesis
    unfolding lits q(1) v using lo hi by simp
qed

lemma radius_bounds:
  assumes "unit_double d"
  shows "fl_le (lit 1) (fl_add (lit 1) (fl_mul d (lit 2)))
         \<and> fl_le (fl_add (lit 1) (fl_mul d (lit 2))) (lit 3)"
proof -
  from assms obtain q where q: "d = Fin q" "0 \<le> q" "q \<le> 9007199254740991 / 9007199254740992"
    by (rule unit_double_cases)
  have lits:
    "lit 1 = Fin 1"
    "lit 2 = Fin 2"
    "lit 3 = Fin 3"
    using rd_1 rd_2 rd_3 by (simp_all add: lit_def)
  have nn: "(0::rat) \<le> 2" by simp
  from scaled_draw_bounds [OF q(2,3) nn rd_radius_scaled_shape rd_1 rd_radius_high_shape]
  obtain v where v: "fl_add (Fin 1) (fl_mul (Fin q) (Fin 2)) = Fin v"
    and lo: "1 \<le> v" and hi: "v \<le> 3"
    by blast
  show ?thesis
    unfolding lits q(1) v using lo hi by simp
qed

lemma height_bounds:
  assumes "unit_double d"
  shows "fl_le (lit (- 1)) (fl_mul (fl_sub d (lit (5 / 10))) (lit 2))
         \<and> fl_less (fl_mul (fl_sub d (lit (5 / 10))) (lit 2)) (lit 1)"
proof -
  from assms obtain q where q: "d = Fin q" "0 \<le> q" "q \<le> 9007199254740991 / 9007199254740992"
    by (rule unit_double_cases)
  have lits:
    "lit (- 1) = Fin (- 1)"
    "lit (5 / 10) = Fin (1 / 2)"
    "lit 2 = Fin 2"
    "lit 1 = Fin 1"
    using rd_height_low rd_1_2 rd_2 rd_1 by (simp_all add: lit_def)
  have nn: "(0::rat) \<le> 2" by simp
  from centred_draw_bounds [OF q(2,3) nn rd_height_centre_low_shape rd_height_centre_high_shape
      rd_height_low_shape rd_height_high_shape]
  obtain v where v: "fl_mul (fl_sub (Fin q) (Fin (1 / 2))) (Fin 2) = Fin v"
    and lo: "- 1 \<le> v" and hi: "v \<le> 4503599627370495 / 4503599627370496"
    by blast
  show ?thesis
    unfolding lits q(1) v using lo hi by simp
qed

text \<open>
  The blue channel reaches 1.0 already for the largest draw that carries 52 random bits.
\<close>

lemma rd_52_bits: "round_double (4503599627370495 / 4503599627370496) = Fin (4503599627370495 / 4503599627370496)"
proof -
  have "round_half_even ((4503599627370495 / 4503599627370496) * 2 ^ 53) = 9007199254740990"
    by (rule round_half_even_nearest) simp_all
  then have "round_double (4503599627370495 / 4503599627370496) = Fin (of_int 9007199254740990 / 2 ^ 53)"
    by (intro round_double_scaled) simp_all
  then show ?thesis by simp
qed

lemma rd_blue_scaled_52: "round_double (16225927682921333636998024606515 / 81129638414606681695789005144064) = Fin (900719925474099 / 4503599627370496)"
proof -
  have "round_half_even ((16225927682921333636998024606515 / 81129638414606681695789005144064) * 2 ^ 55) = 7205759403792792"
    by (rule round_half_even_nearest) simp_all
  then have "round_double (16225927682921333636998024606515 / 81129638414606681695789005144064) = Fin (of_int 7205759403792792 / 2 ^ 55)"
    by (intro round_double_scaled) simp_all
  then show ?thesis by simp
qed

lemma rd_blue_high_52: "round_double 1 = Fin 1"
proof -
  have "round_half_even (1 * 2 ^ 52) = 4503599627370496"
    by (rule round_half_even_nearest) simp_all
  then have "round_double 1 = Fin (of_int 4503599627370496 / 2 ^ 52)"
    by (intro round_double_scaled) simp_all
  then show ?thesis by simp
qed

lemma blue_reaches_one_with_52_bits:
  "unit_double (Fin (1 - 1 / 2 ^ 52))
   \<and> fl_add (lit (8 / 10)) (fl_mul (Fin (1 - 1 / 2 ^ 52)) (lit (2 / 10))) = Fin 1"
  using rd_52_bits rd_4_5 rd_1_5 rd_blue_scaled_52 rd_blue_high_52
  by (simp add: lit_def)

lemma unit_double_example: "unit_double (Math_random example_math j)"
  using rd_max by (simp add: example_math_def)

text \<open>
  C5 does not hold at the upper ends. When every draw is the largest binary64 value below
  1, which \<^verbatim>\<open>Math.random\<close> may return, the first point of slide 1 has green and blue channels
  equal to 1.0 and is built from a radius equal to 3: the comparisons \<^verbatim>\<open>g < 1.0\<close>,
  \<^verbatim>\<open>b < 1.0\<close> and \<^verbatim>\<open>radius < 3\<close> are false.
\<close>

theorem sample_bands_counterexample:
  "unit_double (Math_random example_math 0) \<and> unit_double (Math_random example_math 5)
   \<and> unit_double (Math_random example_math 6)
   \<and> lit 1 = Fin 1 \<and> lit 3 = Fin 3
   \<and> c_g (color (hd (fst (generateSampleData example_math 1 0)))) = Fin 1
   \<and> c_b (color (hd (fst (generateSampleData example_math 1 0)))) = Fin 1
   \<and> sample_radius example_math 0 = Fin 3
   \<and> \<not> fl_less (c_g (color (hd (fst (generateSampleData example_math 1 0))))) (lit 1)
   \<and> \<not> fl_less (c_b (color (hd (fst (generateSampleData example_math 1 0))))) (lit 1)
   \<and> \<not> fl_less (sample_radius example_math 0) (lit 3)"
proof -
  have p: "hd (fst (generateSampleData example_math 1 0)) = sample_point example_math 1 70 0 0"
    using hd_generateSampleData [of 1 example_math 0] by simp
  have one: "lit 1 = Fin 1" and three: "lit 3 = Fin 3"
    using rd_1 rd_3 by (simp_all add: lit_def)
  have g: "c_g (color (sample_point example_math 1 70 0 0)) = Fin 1"
    using rd_1_2 rd_green_scaled rd_green_high
    by (simp add: sample_point_def Let_def example_math_def lit_def)
  have b: "c_b (color (sample_point example_math 1 70 0 0)) = Fin 1"
    using rd_4_5 rd_1_5 rd_blue_scaled rd_blue_high
    by (simp add: sample_point_def Let_def example_math_def lit_def)
  have r: "sample_radius example_math 0 = Fin 3"
    using rd_1 rd_2 rd_radius_scaled rd_radius_high
    by (simp add: sample_radius_def example_math_def lit_def)
  show ?thesis
    unfolding p g b r one three by (simp add: unit_double_example)
qed

text \<open>
  C5, amended. Whatever binary64 values in \<open>[0, 1)\<close> \<^verbatim>\<open>Math.random\<close> returns, every point of
  \<^verbatim>\<open>generateSampleData\<close> has its red channel in \<open>[0.3, 1.0)\<close>, its green channel in
  \<open>[0.5, 1.0]\<close>, its blue channel in \<open>[0.8, 1.0]\<close> and its vertical coordinate in
  \<open>[-1, 1)\<close>, and the ring radius it was built from lies in \<open>[1, 3]\<close>; the bounds are the
  binary64 values of these literals. The upper ends 1.0 of green and blue and 3 of the
  radius are closed: rounding reaches them for a draw next to 1.
\<close>

theorem sample_bands:
  assumes "\<forall>j. unit_double (Math_random m j)"
    and "p \<in> set (fst (generateSampleData m k n))"
  shows "fl_le (lit (3 / 10)) (c_r (color p)) \<and> fl_less (c_r (color p)) (lit 1)
         \<and> fl_le (lit (5 / 10)) (c_g (color p)) \<and> fl_le (c_g (color p)) (lit 1)
         \<and> fl_le (lit (8 / 10)) (c_b (color p)) \<and> fl_le (c_b (color p)) (lit 1)
         \<and> fl_le (lit (- 1)) (p_y p) \<and> fl_less (p_y p) (lit 1)
         \<and> (\<exists>i j. p = sample_point m k (50 + k * 20) i j
                \<and> fl_le (lit 1) (sample_radius m j) \<and> fl_le (sample_radius m j) (lit 3))"
proof -
  from assms(2) obtain j where p: "p = sample_point m k (50 + k * 20) (int j) (n + 7 * j)"
    by (auto simp: generateSampleData_points)
  let ?c = "n + 7 * j"
  have u: "unit_double (Math_random m i)" for i
    using assms(1) by simp
  have r: "c_r (color p) = fl_add (lit (3 / 10)) (fl_mul (Math_random m (?c + 4)) (lit (7 / 10)))"
    and g: "c_g (color p) = fl_add (lit (5 / 10)) (fl_mul (Math_random m (?c + 5)) (lit (5 / 10)))"
    and b: "c_b (color p) = fl_add (lit (8 / 10)) (fl_mul (Math_random m (?c + 6)) (lit (2 / 10)))"
    and y: "p_y p = fl_mul (fl_sub (Math_random m (?c + 1)) (lit (5 / 10))) (lit 2)"
    by (simp_all add: p sample_point_def sample_height_def Let_def)
  have rad: "sample_radius m ?c = fl_add (lit 1) (fl_mul (Math_random m ?c) (lit 2))"
    by (simp add: sample_radius_def)
  have R: "fl_le (lit (3 / 10)) (c_r (color p)) \<and> fl_less (c_r (color p)) (lit 1)"
    unfolding r using u by (rule red_bounds)
  have G: "fl_le (lit (5 / 10)) (c_g (color p)) \<and> fl_le (c_g (color p)) (lit 1)"
    unfolding g using u by (rule green_bounds)
  have B: "fl_le (lit (8 / 10)) (c_b (color p)) \<and> fl_le (c_b (color p)) (lit 1)"
    unfolding b using u by (rule blue_bounds)
  have Y: "fl_le (lit (- 1)) (p_y p) \<and> fl_less (p_y p) (lit 1)"
    unfolding y using u by (rule height_bounds)
  have "fl_le (lit 1) (sample_radius m ?c) \<and> fl_le (sample_radius m ?c) (lit 3)"
    unfolding rad using u by (rule radius_bounds)
  with p have "\<exists>i j. p = sample_point m k (50 + k * 20) i j
                 \<and> fl_le (lit 1) (sample_radius m j) \<and> fl_le (sample_radius m j) (lit 3)"
    by blast
  with R G B Y show ?thesis by blast
qed

theorem sample_bands_witness:
  "(\<forall>j. unit_double (Math_random example_math j))
   \<and> hd (fst (generateSampleData example_math 1 0)) \<in> set (fst (generateSampleData example_math 1 0))
   \<and> fl_less (c_r (color (hd (fst (generateSampleData example_math 1 0))))) (lit 1)
   \<and> fl_le (c_b (color (hd (fst (generateSampleData example_math 1 0))))) (lit 1)
   \<and> fl_less (p_y (hd (fst (generateSampleData example_math 1 0)))) (lit 1)"
proof -
  have u: "\<forall>j. unit_double (Math_random example_math j)"
    by (simp add: unit_double_example)
  have "length (fst (generateSampleData example_math 1 0)) = 70"
    by (simp add: length_generateSampleData)
  then have "fst (generateSampleData example_math 1 0) \<noteq> []" by auto
  then have mem: "hd (fst (generateSampleData example_math 1 0))
                    \<in> set (fst (generateSampleData example_math 1 0))"
    by (rule hd_in_set)
  from sample_bands [OF u mem] u mem show ?thesis by blast
qed

end
